theory Spec2Isabelle
  imports Main
begin

section \<open>Python strings\<close>

text \<open>
  A Python \<open>str\<close> is modelled as a \<open>string\<close>; a \<open>char\<close> is read as the code point of the
  same number, so the model covers the texts whose code points lie in U+0000..U+00FF.
  The three character classes below are the ones \<open>re\<close> and \<open>str.strip\<close> use on that range.
\<close>

definition code :: "char \<Rightarrow> nat" where
  "code c = of_char c"

definition is_digit :: "char \<Rightarrow> bool" where
  \<comment> \<open>\<open>\d\<close>: the decimal digits.\<close>
  "is_digit c = (48 \<le> code c \<and> code c \<le> 57)"

definition is_word :: "char \<Rightarrow> bool" where
  \<comment> \<open>\<open>\w\<close>: alphanumeric characters and the underscore.\<close>
  "is_word c =
     (let n = code c in
        (48 \<le> n \<and> n \<le> 57) \<or> (65 \<le> n \<and> n \<le> 90) \<or> n = 95 \<or> (97 \<le> n \<and> n \<le> 122) \<or>
        n = 170 \<or> n = 178 \<or> n = 179 \<or> n = 181 \<or> n = 185 \<or> n = 186 \<or>
        (188 \<le> n \<and> n \<le> 190) \<or> (192 \<le> n \<and> n \<le> 214) \<or>
        (216 \<le> n \<and> n \<le> 246) \<or> (248 \<le> n \<and> n \<le> 255))"

definition is_space :: "char \<Rightarrow> bool" where
  \<comment> \<open>\<open>\s\<close> and the characters \<open>str.strip()\<close> removes.\<close>
  "is_space c =
     (let n = code c in
        (9 \<le> n \<and> n \<le> 13) \<or> (28 \<le> n \<and> n \<le> 32) \<or> n = 133 \<or> n = 160)"

definition strip :: "string \<Rightarrow> string" where
  \<comment> \<open>\<open>s.strip()\<close>\<close>
  "strip s = rev (dropWhile is_space (rev (dropWhile is_space s)))"

fun strip_prefix :: "string \<Rightarrow> string \<Rightarrow> string option" where
  \<comment> \<open>the rest of the text after the prefix, when the text starts with it\<close>
  "strip_prefix [] s = Some s"
| "strip_prefix (p # ps) [] = None"
| "strip_prefix (p # ps) (c # cs) = (if p = c then strip_prefix ps cs else None)"

fun split_acc :: "nat \<Rightarrow> string \<Rightarrow> string \<Rightarrow> string \<Rightarrow> string list" where
  \<comment> \<open>The scan of \<open>s.split(sep)\<close> for a non-empty separator: left to right, cutting at every
      occurrence of the separator that starts after the previous cut. The first argument
      bounds the number of steps by the length of the text.\<close>
  "split_acc 0 sep cur s = [cur @ s]"
| "split_acc (Suc n) sep cur [] = [cur]"
| "split_acc (Suc n) sep cur (c # cs) =
     (case strip_prefix sep (c # cs) of
        Some rest \<Rightarrow> cur # split_acc n sep [] rest
      | None \<Rightarrow> split_acc n sep (cur @ [c]) cs)"

definition split :: "string \<Rightarrow> string \<Rightarrow> string list" where
  \<comment> \<open>\<open>s.split(sep)\<close>, for \<open>sep\<close> non-empty (an empty separator raises in Python and is
      never passed by the program).\<close>
  "split s sep = split_acc (length s) sep [] s"

fun count_acc :: "nat \<Rightarrow> string \<Rightarrow> string \<Rightarrow> nat" where
  \<comment> \<open>The scan of \<open>s.count(sub)\<close> for a non-empty \<open>sub\<close>: occurrences are counted left to
      right, and the scan resumes after the end of each occurrence found.\<close>
  "count_acc 0 sub s = 0"
| "count_acc (Suc n) sub [] = 0"
| "count_acc (Suc n) sub (c # cs) =
     (case strip_prefix sub (c # cs) of
        Some rest \<Rightarrow> Suc (count_acc n sub rest)
      | None \<Rightarrow> count_acc n sub cs)"

definition count :: "string \<Rightarrow> string \<Rightarrow> nat" where
  \<comment> \<open>\<open>s.count(sub)\<close>; the empty \<open>sub\<close> occurs between all characters and at both ends.\<close>
  "count s sub = (if sub = [] then Suc (length s) else count_acc (length s) sub s)"

datatype exn =
    ElementNotFound string
  | TypeError
  | IndexError
  | ValueError
  | RequestException
  | TimeoutException
  | WebDriverException
  | IllegalCharacterError
  | FileNotFoundError
  | Exception exn

definition index :: "'a list \<Rightarrow> int \<Rightarrow> exn + 'a" where
  \<comment> \<open>\<open>xs[i]\<close>: \<open>xs[-k]\<close> is the \<open>k\<close>-th element from the end; outside the list it raises.\<close>
  "index xs i =
     (if 0 \<le> i \<and> i < int (length xs) then Inr (xs ! nat i)
      else if i < 0 \<and> - int (length xs) \<le> i then Inr (xs ! nat (int (length xs) + i))
      else Inl IndexError)"

definition digit_char :: "nat \<Rightarrow> char" where
  "digit_char n = ''0123456789'' ! (n mod 10)"

fun decimal :: "nat \<Rightarrow> string" where
  \<comment> \<open>the decimal numeral of a number, as \<open>str(n)\<close> and \<open>f'{n}'\<close> print it\<close>
  "decimal n = (if n < 10 then [digit_char n] else decimal (n div 10) @ [digit_char n])"

declare decimal.simps [simp del]

definition digit_value :: "char \<Rightarrow> int" where
  "digit_value c = int (code c) - 48"

definition ascii_lower :: "char \<Rightarrow> char" where
  "ascii_lower c = (if 65 \<le> code c \<and> code c \<le> 90 then char_of (code c + 32) else c)"


section \<open>Regular expressions of the \<open>re\<close> module, as backtracking matchers\<close>

text \<open>
  A matcher state is the text before the current position, the text from it on, and the
  text of capture group 1 if the group has matched. A matcher returns the states in which a
  match of the expression may end, in the order in which the backtracking engine tries
  them, greedy repetition first.
\<close>

type_synonym mstate = "string \<times> string \<times> string option"
type_synonym matcher = "mstate \<Rightarrow> mstate list"

definition cls :: "(char \<Rightarrow> bool) \<Rightarrow> matcher" where
  \<comment> \<open>one character of a class\<close>
  "cls P = (\<lambda>(b, r, g). case r of [] \<Rightarrow> [] | c # cs \<Rightarrow> if P c then [(b @ [c], cs, g)] else [])"

definition lit :: "char \<Rightarrow> matcher" where
  \<comment> \<open>one literal character\<close>
  "lit x = cls (\<lambda>c. c = x)"

definition seq :: "matcher \<Rightarrow> matcher \<Rightarrow> matcher" where
  \<comment> \<open>\<open>AB\<close>\<close>
  "seq m1 m2 = (\<lambda>st. concat (map m2 (m1 st)))"

definition eps :: matcher where
  "eps = (\<lambda>st. [st])"

definition opt :: "matcher \<Rightarrow> matcher" where
  \<comment> \<open>\<open>A?\<close>\<close>
  "opt m = (\<lambda>st. m st @ [st])"

primrec star_n :: "nat \<Rightarrow> matcher \<Rightarrow> matcher" where
  "star_n 0 m = eps"
| "star_n (Suc n) m = (\<lambda>st. concat (map (star_n n m) (m st)) @ [st])"

definition star :: "matcher \<Rightarrow> matcher" where
  \<comment> \<open>\<open>A*\<close>, for an \<open>A\<close> that matches no empty text: the number of repetitions is at most
      the number of characters left.\<close>
  "star m = (\<lambda>(b, r, g). star_n (length r) m (b, r, g))"

definition one_or_more :: "matcher \<Rightarrow> matcher" where
  \<comment> \<open>\<open>A+\<close>\<close>
  "one_or_more m = seq m (star m)"

primrec exactly :: "nat \<Rightarrow> matcher \<Rightarrow> matcher" where
  \<comment> \<open>\<open>A{n}\<close>\<close>
  "exactly 0 m = eps"
| "exactly (Suc n) m = seq m (exactly n m)"

primrec at_most :: "nat \<Rightarrow> matcher \<Rightarrow> matcher" where
  \<comment> \<open>\<open>A{0,n}\<close>\<close>
  "at_most 0 m = eps"
| "at_most (Suc n) m = opt (seq m (at_most n m))"

definition between :: "nat \<Rightarrow> nat \<Rightarrow> matcher \<Rightarrow> matcher" where
  \<comment> \<open>\<open>A{lo,hi}\<close>\<close>
  "between lo hi m = seq (exactly lo m) (at_most (hi - lo) m)"

primrec lits :: "string \<Rightarrow> matcher" where
  \<comment> \<open>a literal text\<close>
  "lits [] = eps"
| "lits (c # cs) = seq (lit c) (lits cs)"

definition at_boundary :: "string \<Rightarrow> string \<Rightarrow> bool" where
  \<comment> \<open>exactly one of the characters around the position is a word character; the ends of
      the text count as non-word characters\<close>
  "at_boundary b r = ((b \<noteq> [] \<and> is_word (last b)) \<noteq> (r \<noteq> [] \<and> is_word (hd r)))"

definition word_boundary :: matcher where
  \<comment> \<open>\<open>\b\<close>\<close>
  "word_boundary = (\<lambda>(b, r, g). if at_boundary b r then [(b, r, g)] else [])"

definition group1 :: "matcher \<Rightarrow> matcher" where
  \<comment> \<open>\<open>(A)\<close> as capture group 1\<close>
  "group1 m = (\<lambda>(b, r, g). map (\<lambda>(b', r', g'). (b', r', Some (drop (length b) b'))) (m (b, r, g)))"

record match =
  start :: nat
  group0 :: string
  group_1 :: "string option"

fun search_from :: "matcher \<Rightarrow> string \<Rightarrow> string \<Rightarrow> match option" where
  \<comment> \<open>the start positions are tried from left to right, the end of the text included; at
      each, the first way to match that the engine finds is the match\<close>
  "search_from m b r =
     (case m (b, r, None) of
        (b', r', g) # _ \<Rightarrow> Some \<lparr>start = length b, group0 = drop (length b) b', group_1 = g\<rparr>
      | [] \<Rightarrow> (case r of [] \<Rightarrow> None | c # cs \<Rightarrow> search_from m (b @ [c]) cs))"

declare search_from.simps [simp del]

definition re_search :: "matcher \<Rightarrow> string \<Rightarrow> match option" where
  \<comment> \<open>\<open>re.search(pattern, text)\<close>\<close>
  "re_search m text = search_from m [] text"

primrec seqs :: "matcher list \<Rightarrow> matcher" where
  \<comment> \<open>the concatenation of the parts of a pattern\<close>
  "seqs [] = eps"
| "seqs (m # ms) = seq m (seqs ms)"


section \<open>The world the scraper acts on\<close>

record dt =
  year :: int
  month :: int
  day :: int

datatype log_entry =
    Info_image_directory_created
  | Info_image_saved string
  | Warning_unable_to_fetch_image int string
  | Warning_error_parsing_date
  | Warning_error_processing_element exn
  | Error_unexpected_error exn

datatype cell = Str string | Num int | Boolean bool

type_synonym sheet = "nat \<times> nat \<Rightarrow> cell option"

record world =
  log :: "log_entry list"
  output_directory_exists :: bool
  img_directory_exists :: bool
  files :: "string \<Rightarrow> string option"
  workbook_file :: "sheet option"
  browser_open :: bool
  close_calls :: nat

definition logging :: "log_entry \<Rightarrow> world \<Rightarrow> world" where
  "logging e w = w\<lparr>log := log w @ [e]\<rparr>"


section \<open>Text classifiers\<close>

definition digit :: matcher where
  "digit = cls is_digit"

definition thousands :: matcher where
  \<comment> \<open>\<open>(?:,\d{3})\<close>\<close>
  "thousands = seq (lit (CHR '','')) (exactly 3 digit)"

definition money_patterns :: "matcher list" where
  \<comment> \<open>\<open>\$\d+(?:,\d{3})*(?:\.\d{1,2})?\<close>, \<open>\b\d+(?:,\d{3})*\s+dollars\b\<close> and
      \<open>\b\d+(?:,\d{3})*\s+USD\b\<close>\<close>
  "money_patterns =
     [seqs [lit (CHR ''$''), one_or_more digit, star thousands,
            opt (seq (lit (CHR ''.'')) (between 1 2 digit))],
      seqs [word_boundary, one_or_more digit, star thousands, one_or_more (cls is_space),
            lits ''dollars'', word_boundary],
      seqs [word_boundary, one_or_more digit, star thousands, one_or_more (cls is_space),
            lits ''USD'', word_boundary]]"

fun any_match :: "matcher list \<Rightarrow> string \<Rightarrow> bool" where
  \<comment> \<open>\<open>for pattern in patterns: if re.search(pattern, text): return True\<close>, then
      \<open>return False\<close>\<close>
  "any_match [] text = False"
| "any_match (p # ps) text = (if re_search p text \<noteq> None then True else any_match ps text)"

definition contains_money :: "string \<Rightarrow> bool" where
  "contains_money text = any_match money_patterns text"

definition date_group :: matcher where
  \<comment> \<open>\<open>(\d{1,2} \w{3} \d{4})\<close>\<close>
  "date_group =
     group1 (seqs [between 1 2 digit, lit (CHR '' ''), exactly 3 (cls is_word), lit (CHR '' ''),
                   exactly 4 digit])"

definition date_patterns :: "matcher list" where
  \<comment> \<open>\<open>Published On (\d{1,2} \w{3} \d{4})\<close> and \<open>Last update (\d{1,2} \w{3} \d{4})\<close>\<close>
  "date_patterns =
     [seq (lits ''Published On '') date_group,
      seq (lits ''Last update '') date_group]"

subsection \<open>\<open>datetime.strptime(text, '%d %b %Y')\<close> and \<open>strftime('%d %b %Y')\<close>\<close>

text \<open>
  The library turns the format into the expression
  \<open>(?P<d>3[0-1]|[1-2]\d|0[1-9]|[1-9]| [1-9])\s+(?P<b>jan|feb|...|dec)\s+(?P<Y>\d\d\d\d)\<close>,
  matched at the start of the text without regard to case, and requires the match to end
  where the text ends; then it builds the date, which fails for a year 0 and for a day the
  month does not have. Month names are those of the C locale.
\<close>

definition in_range :: "char \<Rightarrow> char \<Rightarrow> char \<Rightarrow> bool" where
  "in_range lo hi c = (code lo \<le> code c \<and> code c \<le> code hi)"

definition day_candidates :: "string \<Rightarrow> (int \<times> string) list" where
  \<comment> \<open>the alternatives of \<open>%d\<close> that match at the start of the text, in their order, each
      with the day it reads and the text after it\<close>
  "day_candidates s =
     (case s of
        a # b # r \<Rightarrow>
          (if a = CHR ''3'' \<and> in_range (CHR ''0'') (CHR ''1'') b
           then [(10 * digit_value a + digit_value b, r)] else []) @
          (if in_range (CHR ''1'') (CHR ''2'') a \<and> is_digit b
           then [(10 * digit_value a + digit_value b, r)] else []) @
          (if a = CHR ''0'' \<and> in_range (CHR ''1'') (CHR ''9'') b
           then [(digit_value b, r)] else []) @
          (if in_range (CHR ''1'') (CHR ''9'') a then [(digit_value a, b # r)] else []) @
          (if a = CHR '' '' \<and> in_range (CHR ''1'') (CHR ''9'') b
           then [(digit_value b, r)] else [])
      | [a] \<Rightarrow> (if in_range (CHR ''1'') (CHR ''9'') a then [(digit_value a, [])] else [])
      | [] \<Rightarrow> [])"

definition spaces1 :: "string \<Rightarrow> string option" where
  \<comment> \<open>\<open>\s+\<close> before a part that starts with no space: all the spaces, at least one\<close>
  "spaces1 s = (if s \<noteq> [] \<and> is_space (hd s) then Some (dropWhile is_space s) else None)"

definition month_names :: "string list" where
  "month_names = [''jan'', ''feb'', ''mar'', ''apr'', ''may'', ''jun'',
                  ''jul'', ''aug'', ''sep'', ''oct'', ''nov'', ''dec'']"

fun find_index :: "string \<Rightarrow> string list \<Rightarrow> nat option" where
  "find_index x [] = None"
| "find_index x (y # ys) = (if x = y then Some 0 else map_option Suc (find_index x ys))"

definition month_of_name :: "string \<Rightarrow> int option" where
  \<comment> \<open>the number of the month with this abbreviated name, case ignored\<close>
  "month_of_name s = map_option (\<lambda>i. int i + 1) (find_index (map ascii_lower s) month_names)"

definition rest_of_date :: "string \<Rightarrow> (int \<times> int \<times> string) option" where
  \<comment> \<open>\<open>\s+(?P<b>...)\s+(?P<Y>\d\d\d\d)\<close>: the month, the year and the text left over\<close>
  "rest_of_date s =
     (case spaces1 s of
        None \<Rightarrow> None
      | Some s1 \<Rightarrow>
          (case month_of_name (take 3 s1) of
             None \<Rightarrow> None
           | Some m \<Rightarrow>
               (case spaces1 (drop 3 s1) of
                  None \<Rightarrow> None
                | Some s2 \<Rightarrow>
                    if 4 \<le> length s2 \<and> (\<forall>c \<in> set (take 4 s2). is_digit c)
                    then Some (m, foldl (\<lambda>n c. 10 * n + digit_value c) 0 (take 4 s2), drop 4 s2)
                    else None)))"

fun first_parse :: "(int \<times> string) list \<Rightarrow> (int \<times> int \<times> int \<times> string) option" where
  \<comment> \<open>the first alternative for the day after which the rest of the expression matches\<close>
  "first_parse [] = None"
| "first_parse ((d, r) # cs) =
     (case rest_of_date r of Some (m, y, left) \<Rightarrow> Some (d, m, y, left) | None \<Rightarrow> first_parse cs)"

definition is_leap :: "int \<Rightarrow> bool" where
  "is_leap y = (y mod 4 = 0 \<and> (y mod 100 \<noteq> 0 \<or> y mod 400 = 0))"

definition days_in_month :: "int \<Rightarrow> int \<Rightarrow> int" where
  "days_in_month y m =
     (if m = 2 then (if is_leap y then 29 else 28)
      else if m = 4 \<or> m = 6 \<or> m = 9 \<or> m = 11 then 30 else 31)"

definition strptime :: "string \<Rightarrow> exn + dt" where
  "strptime s =
     (case first_parse (day_candidates s) of
        None \<Rightarrow> Inl ValueError
      | Some (d, m, y, left) \<Rightarrow>
          if left = [] \<and> 1 \<le> y \<and> d \<le> days_in_month y m
          then Inr \<lparr>year = y, month = m, day = d\<rparr>
          else Inl ValueError)"

definition month_abbr :: "string list" where
  "month_abbr = [''Jan'', ''Feb'', ''Mar'', ''Apr'', ''May'', ''Jun'',
                 ''Jul'', ''Aug'', ''Sep'', ''Oct'', ''Nov'', ''Dec'']"

definition strftime :: "dt \<Rightarrow> string" where
  \<comment> \<open>\<open>date.strftime('%d %b %Y')\<close>: the day with two digits, the month's abbreviated name,
      the year as the C library prints it\<close>
  "strftime d =
     (if day d < 10 then ''0'' else []) @ decimal (nat (day d)) @ '' '' @
     month_abbr ! nat (month d - 1) @ '' '' @ decimal (nat (year d))"

subsection \<open>\<open>convert_string_to_datetime\<close>\<close>

definition try_pattern :: "matcher \<Rightarrow> string \<Rightarrow> world \<Rightarrow> (exn + dt option) option \<times> world" where
  \<comment> \<open>The body of \<open>for pattern in date_patterns\<close>. \<open>Some\<close> is a \<open>return\<close> or a raise out of
      the function, \<open>None\<close> is falling through to the next iteration. The \<open>return None\<close>
      that ends the body stands inside the loop, so that every path returns.
      \<open>strptime(None)\<close> raises \<open>TypeError\<close>, which \<open>except ValueError\<close> does not catch.\<close>
  "try_pattern p date_string w =
     (case re_search p date_string of
        Some m \<Rightarrow>
          (case group_1 m of
             None \<Rightarrow> (Some (Inl TypeError), w)
           | Some g \<Rightarrow>
               (case strptime g of
                  Inr d \<Rightarrow> (Some (Inr (Some d)), w)
                | Inl e \<Rightarrow> (Some (Inr None), logging Warning_error_parsing_date w)))
      | None \<Rightarrow> (Some (Inr None), w))"

fun for_patterns :: "matcher list \<Rightarrow> string \<Rightarrow> world \<Rightarrow> (exn + dt option) \<times> world" where
  \<comment> \<open>the loop over the patterns; after the last one the function ends without a
      \<open>return\<close>, which yields \<open>None\<close>\<close>
  "for_patterns [] date_string w = (Inr None, w)"
| "for_patterns (p # ps) date_string w =
     (case try_pattern p date_string w of
        (Some r, w') \<Rightarrow> (r, w')
      | (None, w') \<Rightarrow> for_patterns ps date_string w')"

definition convert_string_to_datetime :: "string \<Rightarrow> world \<Rightarrow> (exn + dt option) \<times> world" where
  "convert_string_to_datetime date_string w =
     (if strip date_string \<noteq> [] then for_patterns date_patterns date_string w
      else (Inr None, w))"


section \<open>The browser and the network\<close>

text \<open>
  The browser library and the HTTP library are outside the program. An article element is
  modelled by what looking up its parts yields: \<open>None\<close> where \<open>find_element\<close> raises. The
  site is modelled by what the steps of a run find on it.
\<close>

record element =
  title_text :: "string option"
  body_text :: "string option"
  footer_text :: "string option"
  image_src :: "string option option"

datatype response = Raises exn | Response int string

datatype button = Absent | Clickable | Unclickable exn

record site =
  window_width :: int
  broken :: "string \<Rightarrow> exn option"
  sort_option_present :: bool
  main_content_present :: bool
  load_more :: "nat \<Rightarrow> button"
  articles :: "element list"
  requests_get :: "string \<Rightarrow> response"

definition ENABLE_SEARCH_BUTTON_BIG :: string where
  "ENABLE_SEARCH_BUTTON_BIG = ''xpath://*[@id=\"root\"]/div/div[1]/div[1]/div/header/div[4]/div[2]/button''"

definition SEARCH_INPUT_BIG :: string where
  "SEARCH_INPUT_BIG = ''class=search-bar__input''"

definition ENABLE_SEARCH_BUTTON_SMALL :: string where
  "ENABLE_SEARCH_BUTTON_SMALL = ''xpath://header/div[3]/button''"

definition SEARCH_INPUT_SMALL :: string where
  "SEARCH_INPUT_SMALL = ''xpath://form/div[1]/input''"

definition SEARCH_BUTTON_ID :: string where
  "SEARCH_BUTTON_ID = ''Search''"

definition SEARCH_SORT_OPTIONS :: string where
  "SEARCH_SORT_OPTIONS = ''id=search-sort-option''"

definition NEWS_TITLE_CLASS :: string where
  "NEWS_TITLE_CLASS = ''class=gc__title''"

definition NEWS_DESCRIPTION_CLASS :: string where
  "NEWS_DESCRIPTION_CLASS = ''class=gc__body-wrap''"

definition NEWS_FOOTER_CLASS :: string where
  "NEWS_FOOTER_CLASS = ''class=gc__footer''"

definition NEWS_IMAGE_CLASS :: string where
  "NEWS_IMAGE_CLASS = ''class=gc__image''"

definition find_element :: "string \<Rightarrow> 'a option \<Rightarrow> exn + 'a" where
  "find_element locator part =
     (case part of None \<Rightarrow> Inl (ElementNotFound locator) | Some v \<Rightarrow> Inr v)"

definition act :: "site \<Rightarrow> string \<Rightarrow> exn + unit" where
  \<comment> \<open>clicking, typing into or selecting from the element at a locator\<close>
  "act s locator = (case broken s locator of Some e \<Rightarrow> Inl e | None \<Rightarrow> Inr ())"

definition and_then :: "exn + 'a \<Rightarrow> ('a \<Rightarrow> exn + 'b) \<Rightarrow> exn + 'b" where
  \<comment> \<open>one statement after another: a raise skips what follows\<close>
  "and_then r f = (case r of Inl e \<Rightarrow> Inl e | Inr v \<Rightarrow> f v)"


section \<open>The scraper\<close>

record scrapper =
  month_limit :: int
  search_phrase :: "string option"

definition init :: "int \<Rightarrow> int \<Rightarrow> string option \<Rightarrow> scrapper" where
  \<comment> \<open>\<open>__init__\<close>, given the month of the current date\<close>
  "init now_month number_of_months phrase =
     \<lparr>month_limit = now_month - max (number_of_months - 1) 0, search_phrase = phrase\<rparr>"

subsection \<open>\<open>get_news_image\<close>\<close>

definition get_news_image :: "site \<Rightarrow> string option \<Rightarrow> nat \<Rightarrow> world \<Rightarrow> (exn + string) \<times> world" where
  \<comment> \<open>\<open>os.makedirs('output/imgs')\<close> makes the output directory as well. \<open>requests.get\<close>
      raises on a timeout, on a failed connection and on a source that is no URL (as
      \<open>None\<close>, when the element has no \<open>src\<close>); nothing here catches it.\<close>
  "get_news_image s img_src idx w =
     (let w1 = (if \<not> img_directory_exists w
                then logging Info_image_directory_created
                       (w\<lparr>output_directory_exists := True, img_directory_exists := True\<rparr>)
                else w);
          resp = (case img_src of None \<Rightarrow> Raises RequestException | Some url \<Rightarrow> requests_get s url)
      in case resp of
           Raises e \<Rightarrow> (Inl e, w1)
         | Response status_code content \<Rightarrow>
             if status_code = 200
             then (let img_file_name = ''img_'' @ decimal idx @ ''.png''
                   in (Inr img_file_name,
                       logging (Info_image_saved img_file_name)
                         (w1\<lparr>files := (files w1)(''output/imgs/'' @ img_file_name \<mapsto> content)\<rparr>)))
             else (Inr ''Unavailable'',
                   logging (Warning_unable_to_fetch_image status_code content) w1))"

subsection \<open>\<open>process_news_payload\<close>\<close>

type_synonym dict = "(string \<times> cell) list"

datatype outcome = Appended dict | No_date | Break

definition process_element ::
  "scrapper \<Rightarrow> site \<Rightarrow> nat \<Rightarrow> element \<Rightarrow> world \<Rightarrow> (exn + outcome) \<times> world" where
  \<comment> \<open>the body of the \<open>try\<close> for one element, in the order of evaluation of the source;
      \<open>title.count(None)\<close> raises \<open>TypeError\<close>\<close>
  "process_element self s i el w =
     (case find_element NEWS_TITLE_CLASS (title_text el) of
        Inl e \<Rightarrow> (Inl e, w)
      | Inr title \<Rightarrow>
     (case find_element NEWS_DESCRIPTION_CLASS (body_text el) of
        Inl e \<Rightarrow> (Inl e, w)
      | Inr body \<Rightarrow>
     (let parts = split body ''...'' in
      case index parts (int (length parts) - 2) of
        Inl e \<Rightarrow> (Inl e, w)
      | Inr part \<Rightarrow>
     (let description = strip part in
      case find_element NEWS_FOOTER_CLASS (footer_text el) of
        Inl e \<Rightarrow> (Inl e, w)
      | Inr footer \<Rightarrow>
     (case convert_string_to_datetime footer w of
        (Inl e, w1) \<Rightarrow> (Inl e, w1)
      | (Inr None, w1) \<Rightarrow> (Inr No_date, w1)
      | (Inr (Some date), w1) \<Rightarrow>
          if month date \<ge> month_limit self
          then
            (case search_phrase self of
               None \<Rightarrow> (Inl TypeError, w1)
             | Some phrase \<Rightarrow>
            (case find_element NEWS_IMAGE_CLASS (image_src el) of
               Inl e \<Rightarrow> (Inl e, w1)
             | Inr src \<Rightarrow>
            (case get_news_image s src i w1 of
               (Inl e, w2) \<Rightarrow> (Inl e, w2)
             | (Inr img_file_name, w2) \<Rightarrow>
                 (Inr (Appended
                    [(''title'', Str title),
                     (''date'', Str (strftime date)),
                     (''description'', Str description),
                     (''search_term_occurrence'',
                        Num (int (count title phrase + count description phrase))),
                     (''contains_money'',
                        Boolean (contains_money title \<or> contains_money description)),
                     (''img_file_name'', Str img_file_name)]), w2))))
          else (Inr Break, w1))))))"

fun for_elements ::
  "scrapper \<Rightarrow> site \<Rightarrow> nat \<Rightarrow> element list \<Rightarrow> dict list \<Rightarrow> world \<Rightarrow> dict list \<times> world" where
  \<comment> \<open>\<open>for i, element in enumerate(news_list)\<close> with its \<open>try\<close> and \<open>except Exception\<close>\<close>
  "for_elements self s i [] payload w = (payload, w)"
| "for_elements self s i (el # els) payload w =
     (case process_element self s i el w of
        (Inl e, w') \<Rightarrow>
          for_elements self s (Suc i) els payload (logging (Warning_error_processing_element e) w')
      | (Inr Break, w') \<Rightarrow> (payload, w')
      | (Inr No_date, w') \<Rightarrow> for_elements self s (Suc i) els payload w'
      | (Inr (Appended d), w') \<Rightarrow> for_elements self s (Suc i) els (payload @ [d]) w')"

definition process_news_payload ::
  "scrapper \<Rightarrow> site \<Rightarrow> element list \<Rightarrow> world \<Rightarrow> dict list \<times> world" where
  "process_news_payload self s news_list w = for_elements self s 0 news_list [] w"

subsection \<open>\<open>save_payload_to_excel\<close>\<close>

text \<open>
  The spreadsheet library checks every text it is given for a cell (\<open>check_string\<close> of
  \<open>openpyxl\<close>): the text is cut to 32767 characters, and a control character other than tab,
  line feed and carriage return in it raises \<open>IllegalCharacterError\<close>. Numbers and truth
  values are stored as they are. \<open>save_workbook\<close> writes the file and raises
  \<open>FileNotFoundError\<close> when the directory of the file does not exist.
\<close>

definition illegal_character :: "char \<Rightarrow> bool" where
  \<comment> \<open>\<open>[\000-\010]|[\013-\014]|[\016-\037]\<close>\<close>
  "illegal_character c =
     (code c \<le> 8 \<or> code c = 11 \<or> code c = 12 \<or> (14 \<le> code c \<and> code c \<le> 31))"

definition check_string :: "string \<Rightarrow> exn + string" where
  "check_string v =
     (if \<exists>c \<in> set (take 32767 v). illegal_character c then Inl IllegalCharacterError
      else Inr (take 32767 v))"

definition set_cell_value :: "nat \<Rightarrow> nat \<Rightarrow> cell \<Rightarrow> sheet \<Rightarrow> exn + sheet" where
  \<comment> \<open>\<open>excel.set_cell_value(row, column, value)\<close>\<close>
  "set_cell_value row column v sh =
     (case v of
        Str t \<Rightarrow>
          (case check_string t of
             Inl e \<Rightarrow> Inl e
           | Inr t' \<Rightarrow> Inr (sh((row, column) \<mapsto> Str t')))
      | _ \<Rightarrow> Inr (sh((row, column) \<mapsto> v)))"

fun for_keys :: "nat \<Rightarrow> string list \<Rightarrow> sheet \<Rightarrow> exn + sheet" where
  \<comment> \<open>\<open>for col_num, key in enumerate(keys, start=1): excel.set_cell_value(1, col_num, key)\<close>\<close>
  "for_keys col_num [] sh = Inr sh"
| "for_keys col_num (key # keys) sh =
     (case set_cell_value 1 col_num (Str key) sh of
        Inl e \<Rightarrow> Inl e
      | Inr sh' \<Rightarrow> for_keys (Suc col_num) keys sh')"

fun for_items :: "nat \<Rightarrow> nat \<Rightarrow> dict \<Rightarrow> sheet \<Rightarrow> exn + sheet" where
  \<comment> \<open>\<open>for col_num, (key, value) in enumerate(dictionary.items(), start=1)\<close>\<close>
  "for_items row_num col_num [] sh = Inr sh"
| "for_items row_num col_num ((key, v) # items) sh =
     (case set_cell_value row_num col_num v sh of
        Inl e \<Rightarrow> Inl e
      | Inr sh' \<Rightarrow> for_items row_num (Suc col_num) items sh')"

fun for_rows :: "nat \<Rightarrow> dict list \<Rightarrow> sheet \<Rightarrow> exn + sheet" where
  \<comment> \<open>\<open>for row_num, dictionary in enumerate(payload, start=2)\<close>\<close>
  "for_rows row_num [] sh = Inr sh"
| "for_rows row_num (dictionary # payload) sh =
     (case for_items row_num 1 dictionary sh of
        Inl e \<Rightarrow> Inl e
      | Inr sh' \<Rightarrow> for_rows (Suc row_num) payload sh')"

definition save_payload_to_excel :: "dict list \<Rightarrow> world \<Rightarrow> (exn + unit) \<times> world" where
  \<comment> \<open>A new workbook is empty, an existing one is opened with its cells. \<open>payload[0]\<close>
      raises on the empty list. The cells are set in the workbook in memory; the file is
      written by \<open>save_workbook\<close> at the end only, so that a raise leaves the file as it
      was.\<close>
  "save_payload_to_excel payload w =
     (let sh = (case workbook_file w of None \<Rightarrow> Map.empty | Some old \<Rightarrow> old)
      in case index payload 0 of
           Inl e \<Rightarrow> (Inl e, w)
         | Inr first \<Rightarrow>
             (case for_keys 1 (map fst first) sh of
                Inl e \<Rightarrow> (Inl e, w)
              | Inr sh1 \<Rightarrow>
                  (case for_rows 2 payload sh1 of
                     Inl e \<Rightarrow> (Inl e, w)
                   | Inr sh2 \<Rightarrow>
                       if output_directory_exists w
                       then (Inr (), w\<lparr>workbook_file := Some sh2\<rparr>)
                       else (Inl FileNotFoundError, w))))"

subsection \<open>\<open>search_news\<close> and \<open>get_news_list_by_date\<close>\<close>

definition search_news :: "site \<Rightarrow> exn + unit" where
  "search_news s =
     and_then
       (if window_width s > 992
        then and_then (act s ENABLE_SEARCH_BUTTON_BIG) (\<lambda>_. act s SEARCH_INPUT_BIG)
        else and_then (act s ENABLE_SEARCH_BUTTON_SMALL) (\<lambda>_. act s SEARCH_INPUT_SMALL))
       (\<lambda>_. act s SEARCH_BUTTON_ID)"

definition wait_until :: "bool \<Rightarrow> exn + unit" where
  \<comment> \<open>\<open>WebDriverWait(...).until(presence_of_element_located(...))\<close>\<close>
  "wait_until present = (if present then Inr () else Inl TimeoutException)"

partial_function (option) while_load_more :: "(nat \<Rightarrow> button) \<Rightarrow> nat \<Rightarrow> (exn + unit) option" where
  \<comment> \<open>\<open>while self.browser.does_page_contain_element(LOAD_MODE_BUTTON)\<close>: scroll and click.
      The loop has no bound; \<open>None\<close> is the loop that never ends.\<close>
  "while_load_more page k =
     (case page k of
        Absent \<Rightarrow> Some (Inr ())
      | Clickable \<Rightarrow> while_load_more page (Suc k)
      | Unclickable e \<Rightarrow> Some (Inl e))"

definition get_news_list_by_date :: "site \<Rightarrow> (exn + element list) option" where
  "get_news_list_by_date s =
     (case and_then (act s SEARCH_SORT_OPTIONS) (\<lambda>_. wait_until (main_content_present s)) of
        Inl e \<Rightarrow> Some (Inl e)
      | Inr _ \<Rightarrow>
          (case while_load_more (load_more s) 0 of
             None \<Rightarrow> None
           | Some (Inl e) \<Rightarrow> Some (Inl e)
           | Some (Inr _) \<Rightarrow> Some (Inr (articles s))))"

subsection \<open>\<open>scrape\<close>\<close>

definition close_all_browsers :: "world \<Rightarrow> world" where
  "close_all_browsers w = w\<lparr>browser_open := False, close_calls := Suc (close_calls w)\<rparr>"

definition scrape_try :: "scrapper \<Rightarrow> site \<Rightarrow> world \<Rightarrow> ((exn + unit) \<times> world) option" where
  \<comment> \<open>the body of the \<open>try\<close>\<close>
  "scrape_try self s w =
     (case and_then (search_news s) (\<lambda>_. wait_until (sort_option_present s)) of
        Inl e \<Rightarrow> Some (Inl e, w)
      | Inr _ \<Rightarrow>
          (case get_news_list_by_date s of
             None \<Rightarrow> None
           | Some (Inl e) \<Rightarrow> Some (Inl e, w)
           | Some (Inr news_list) \<Rightarrow>
               (case process_news_payload self s news_list w of
                  (payload, w1) \<Rightarrow> Some (save_payload_to_excel payload w1))))"

definition scrape :: "scrapper \<Rightarrow> site \<Rightarrow> world \<Rightarrow> ((exn + unit) \<times> world) option" where
  \<comment> \<open>\<open>except Exception as error\<close>: log, close, \<open>raise Exception from error\<close>;
      \<open>finally\<close>: close\<close>
  "scrape self s w =
     (case scrape_try self s w of
        None \<Rightarrow> None
      | Some (Inl error, w1) \<Rightarrow>
          Some (Inl (Exception error),
                close_all_browsers (close_all_browsers (logging (Error_unexpected_error error) w1)))
      | Some (Inr _, w1) \<Rightarrow> Some (Inr (), close_all_browsers w1))"


section \<open>Notions in which the properties are stated\<close>

definition contains_text :: "string \<Rightarrow> string \<Rightarrow> bool" where
  \<comment> \<open>the text contains the literal \<open>sub\<close>\<close>
  "contains_text s sub = (\<exists>pre post. s = pre @ sub @ post)"

definition description_segment :: "string \<Rightarrow> string" where
  \<comment> \<open>the second-to-last of the segments between the ellipses of a rendered description,
      and the whole text when it has no ellipsis\<close>
  "description_segment body =
     (if contains_text body ''...''
      then split body ''...'' ! (length (split body ''...'') - 2)
      else body)"

definition new_world :: world where
  \<comment> \<open>the world before a first run: nothing logged, no directory and no file, the browser
      open\<close>
  "new_world = \<lparr>log = [], output_directory_exists = False, img_directory_exists = False,
                 files = Map.empty,
                 workbook_file = None, browser_open = True, close_calls = 0\<rparr>"

definition conc :: "string set \<Rightarrow> string set \<Rightarrow> string set" where
  \<comment> \<open>a text of the first set followed by a text of the second\<close>
  "conc A B = {u @ v | u v. u \<in> A \<and> v \<in> B}"

definition many :: "string set \<Rightarrow> string set" where
  \<comment> \<open>any number of texts of the set, one after another\<close>
  "many A = {concat us | us. \<forall>u \<in> set us. u \<in> A}"

definition recognises :: "matcher \<Rightarrow> string set \<Rightarrow> bool" where
  \<comment> \<open>the matcher matches, at any position, exactly the texts of the set that start there\<close>
  "recognises m L =
     (\<forall>b r g. set (m (b, r, g)) = {(b @ u, v, g) | u v. r = u @ v \<and> u \<in> L})"

definition digit_strings :: "string set" where
  \<comment> \<open>one or more digits\<close>
  "digit_strings = {ds. ds \<noteq> [] \<and> (\<forall>c \<in> set ds. is_digit c)}"

definition thousands_group :: "string set" where
  \<comment> \<open>a thousands separator and its three digits\<close>
  "thousands_group = {[CHR '','', a, b, c] | a b c. is_digit a \<and> is_digit b \<and> is_digit c}"

definition separated_integer :: "string set" where
  \<comment> \<open>an integer with optional thousands separators\<close>
  "separated_integer = conc digit_strings (many thousands_group)"

definition decimals :: "string set" where
  \<comment> \<open>a decimal point and one or two decimal places\<close>
  "decimals = {[CHR ''.'', a] | a. is_digit a} \<union>
              {[CHR ''.'', a, b] | a b. is_digit a \<and> is_digit b}"

definition dollar_amount :: "string set" where
  \<comment> \<open>a dollar-sign amount with optional thousands separators and up to two decimal places\<close>
  "dollar_amount = conc {''$''} (conc separated_integer (insert [] decimals))"

definition space_strings :: "string set" where
  \<comment> \<open>one or more whitespace characters\<close>
  "space_strings = {ws. ws \<noteq> [] \<and> (\<forall>c \<in> set ws. is_space c)}"

definition contains_amount :: "string \<Rightarrow> bool" where
  \<comment> \<open>the text contains a dollar-sign amount\<close>
  "contains_amount text = (\<exists>pre m post. text = pre @ m @ post \<and> m \<in> dollar_amount)"

definition followed_by :: "string \<Rightarrow> string \<Rightarrow> bool" where
  \<comment> \<open>The words of the claim: the text contains an integer followed by the literal, directly
      or after whitespace.\<close>
  "followed_by unit text =
     (\<exists>pre n ws post. text = pre @ n @ ws @ unit @ post \<and> n \<in> separated_integer \<and>
        (\<forall>c \<in> set ws. is_space c))"

definition worded_amount :: "string \<Rightarrow> string \<Rightarrow> bool" where
  \<comment> \<open>The text contains an integer that does not continue a word, one or more whitespace
      characters after it, and then the literal, not continued by a word character.\<close>
  "worded_amount unit text =
     (\<exists>pre n ws post. text = pre @ n @ ws @ unit @ post \<and> n \<in> separated_integer \<and>
        ws \<in> space_strings \<and> (pre = [] \<or> \<not> is_word (last pre)) \<and>
        (post = [] \<or> \<not> is_word (hd post)))"

definition occurs_at :: "string \<Rightarrow> string \<Rightarrow> nat \<Rightarrow> bool" where
  \<comment> \<open>the literal \<open>sub\<close> occurs in the text at this position, character for character\<close>
  "occurs_at sub s p = (p + length sub \<le> length s \<and> take (length sub) (drop p s) = sub)"

fun apart :: "nat \<Rightarrow> nat list \<Rightarrow> bool" where
  \<comment> \<open>each position of the list is at least \<open>n\<close> after the one before it\<close>
  "apart n [] = True"
| "apart n [p] = True"
| "apart n (p # q # ps) = (p + n \<le> q \<and> apart n (q # ps))"

definition non_overlapping :: "string \<Rightarrow> string \<Rightarrow> nat list \<Rightarrow> bool" where
  \<comment> \<open>occurrences of \<open>sub\<close> in the text, from left to right, of which no two overlap\<close>
  "non_overlapping sub s ps = (apart (length sub) ps \<and> (\<forall>p \<in> set ps. occurs_at sub s p))"

definition occurrence_count :: "string \<Rightarrow> string \<Rightarrow> nat \<Rightarrow> bool" where
  \<comment> \<open>\<open>k\<close> is the greatest number of occurrences of \<open>sub\<close> in the text of which no two
      overlap; the empty \<open>sub\<close> occurs once at every position, the end included\<close>
  "occurrence_count sub s k =
     (if sub = [] then k = card {p. occurs_at sub s p}
      else (\<exists>ps. non_overlapping sub s ps \<and> length ps = k) \<and>
           (\<forall>ps. non_overlapping sub s ps \<longrightarrow> length ps \<le> k))"

definition legal :: "cell \<Rightarrow> bool" where
  \<comment> \<open>the spreadsheet library accepts the value for a cell\<close>
  "legal v = (case v of Str t \<Rightarrow> \<forall>c \<in> set (take 32767 t). \<not> illegal_character c | _ \<Rightarrow> True)"

definition stored :: "cell \<Rightarrow> cell" where
  \<comment> \<open>the value as the cell holds it: a text cut to 32767 characters\<close>
  "stored v = (case v of Str t \<Rightarrow> Str (take 32767 t) | _ \<Rightarrow> v)"

fun written_keys :: "nat \<Rightarrow> string list \<Rightarrow> sheet \<Rightarrow> sheet" where
  \<comment> \<open>the sheet after the header row is set, when no key is refused\<close>
  "written_keys col_num [] sh = sh"
| "written_keys col_num (key # keys) sh =
     written_keys (Suc col_num) keys (sh((1, col_num) \<mapsto> stored (Str key)))"

fun written_items :: "nat \<Rightarrow> nat \<Rightarrow> dict \<Rightarrow> sheet \<Rightarrow> sheet" where
  \<comment> \<open>the sheet after the row of a record is set, when no value is refused\<close>
  "written_items row_num col_num [] sh = sh"
| "written_items row_num col_num ((key, v) # items) sh =
     written_items row_num (Suc col_num) items (sh((row_num, col_num) \<mapsto> stored v))"

fun written_rows :: "nat \<Rightarrow> dict list \<Rightarrow> sheet \<Rightarrow> sheet" where
  \<comment> \<open>the sheet after the rows of the records are set, when no value is refused\<close>
  "written_rows row_num [] sh = sh"
| "written_rows row_num (dictionary # payload) sh =
     written_rows (Suc row_num) payload (written_items row_num 1 dictionary sh)"


definition writable :: "dict list \<Rightarrow> world \<Rightarrow> bool" where
  \<comment> \<open>the output directory exists, and the library accepts the field names of the first
      record and all the values of the records\<close>
  "writable payload w =
     (output_directory_exists w \<and> (\<forall>key \<in> set (map fst (hd payload)). legal (Str key)) \<and>
      (\<forall>d \<in> set payload. \<forall>kv \<in> set d. legal (snd kv)))"

definition raises :: "scrapper \<Rightarrow> site \<Rightarrow> nat \<times> element \<Rightarrow> exn \<Rightarrow> bool" where
  \<comment> \<open>processing the element at this position raises this exception (what processing an
      element yields does not depend on the world it starts from)\<close>
  "raises self s ie e = (fst (process_element self s (fst ie) (snd ie) new_world) = Inl e)"

definition record_of :: "scrapper \<Rightarrow> site \<Rightarrow> nat \<times> element \<Rightarrow> dict option" where
  \<comment> \<open>the record built from the element at this position, if processing it builds one\<close>
  "record_of self s ie =
     (case fst (process_element self s (fst ie) (snd ie) new_world) of
        Inr (Appended d) \<Rightarrow> Some d
      | _ \<Rightarrow> None)"

definition parsed_date :: "element \<Rightarrow> dt option" where
  \<comment> \<open>the date the extractor parses from the footer of an element: none when the title, the
      description or the footer is not found (the footer is then never read) and none when
      \<open>convert_string_to_datetime\<close> returns \<open>None\<close>\<close>
  "parsed_date el =
     (case (title_text el, body_text el, footer_text el) of
        (Some _, Some _, Some footer) \<Rightarrow>
          (case fst (convert_string_to_datetime footer new_world) of
             Inr (Some d) \<Rightarrow> Some d
           | _ \<Rightarrow> None)
      | _ \<Rightarrow> None)"

definition below_limit :: "scrapper \<Rightarrow> nat \<times> element \<Rightarrow> bool" where
  \<comment> \<open>the parsed month of the element is below the month limit\<close>
  "below_limit self ie =
     (case parsed_date (snd ie) of Some d \<Rightarrow> month d < month_limit self | None \<Rightarrow> False)"


definition image_step ::
  "scrapper \<Rightarrow> site \<Rightarrow> nat \<Rightarrow> element \<Rightarrow> string \<Rightarrow> string \<Rightarrow> dt \<Rightarrow> world \<Rightarrow>
   (exn + outcome) \<times> world" where
  \<comment> \<open>the part of \<open>process_element\<close> that builds the record of an element with a recent date\<close>
 "image_step self s i el title description date w1 = (case search_phrase self of
               None \<Rightarrow> (Inl TypeError, w1)
             | Some phrase \<Rightarrow>
            (case find_element NEWS_IMAGE_CLASS (image_src el) of
               Inl e \<Rightarrow> (Inl e, w1)
             | Inr src \<Rightarrow>
            (case get_news_image s src i w1 of
               (Inl e, w2) \<Rightarrow> (Inl e, w2)
             | (Inr img_file_name, w2) \<Rightarrow>
                 (Inr (Appended
                    [(''title'', Str title),
                     (''date'', Str (strftime date)),
                     (''description'', Str description),
                     (''search_term_occurrence'',
                        Num (int (count title phrase + count description phrase))),
                     (''contains_money'',
                        Boolean (contains_money title \<or> contains_money description)),
                     (''img_file_name'', Str img_file_name)]), w2))))"

subsection \<open>A small site, for concrete runs\<close>

definition image_server :: "string \<Rightarrow> response" where
  "image_server url =
     (if url = ''https://img/ok.jpg'' then Response 200 ''JPEG''
      else if url = ''https://img/created.jpg'' then Response 201 ''JPEG''
      else if url = ''https://img/gone.jpg'' then Response 404 ''Not Found''
      else Raises TimeoutException)"

definition article :: "string \<Rightarrow> string \<Rightarrow> string \<Rightarrow> string \<Rightarrow> element" where
  "article title body footer src =
     \<lparr>title_text = Some title, body_text = Some body, footer_text = Some footer,
      image_src = Some (Some src)\<rparr>"

definition gaza_article :: element where
  "gaza_article =
     article ''Gaza under fire'' ''Situation in Gaza worsens, Gaza residents flee''
       ''Published On 05 Mar 2024'' ''https://img/ok.jpg''"

definition january_article :: element where
  "january_article =
     article ''Aid package worth $2,500.00 approved'' ''2 days ago ... Talks resume ...''
       ''Published On 28 Jan 2024'' ''https://img/gone.jpg''"


definition slow_image_article :: element where
  "slow_image_article =
     article ''Markets'' ''Stocks fall ...'' ''Published On 07 Mar 2024'' ''https://img/slow.jpg''"

definition untitled_article :: element where
  "untitled_article = gaza_article\<lparr>title_text := None\<rparr>"

definition banana_article :: element where
  "banana_article =
     article ''Banana trade'' ''Prices rise'' ''Published On 09 Mar 2024'' ''https://img/ok.jpg''"





definition news_site :: "element list \<Rightarrow> site" where
  "news_site els =
     \<lparr>window_width = 1280, broken = (\<lambda>_. None), sort_option_present = True,
      main_content_present = True,
      load_more = (\<lambda>k. if k < 2 then Clickable else Absent),
      articles = els, requests_get = image_server\<rparr>"

definition gaza_scrapper :: scrapper where
  "gaza_scrapper = \<lparr>month_limit = 3, search_phrase = Some ''Gaza''\<rparr>"

definition broken_search_site :: site where
  "broken_search_site =
     (news_site [])\<lparr>broken := (\<lambda>locator. if locator = SEARCH_BUTTON_ID
                                        then Some WebDriverException else None)\<rparr>"

definition unsorted_site :: site where
  "unsorted_site = (news_site [])\<lparr>sort_option_present := False\<rparr>"

definition stuck_site :: site where
  "stuck_site =
     (news_site [])\<lparr>load_more := (\<lambda>k. if k < 1 then Clickable
                                       else Unclickable WebDriverException)\<rparr>"

definition reraised :: "scrapper \<Rightarrow> site \<Rightarrow> world \<Rightarrow> exn \<Rightarrow> bool" where
  \<comment> \<open>the run ends with the generic exception raised from this one, the browser closed and
      the error logged\<close>
  "reraised self s w e =
     (\<exists>w'. scrape self s w = Some (Inl (Exception e), w') \<and> \<not> browser_open w' \<and>
           Error_unexpected_error e \<in> set (log w'))"

section \<open>The date in the footer\<close>

text \<open>
  Claim C1. A footer with a date after "Last update" and no "Published On" should yield
  that date, the second pattern being tried when the first does not match. The code does
  not do so: the \<open>return None\<close> inside the loop ends the function as soon as the first
  pattern has not matched, so the second pattern is never tried. On the footer
  "Last update 31 Dec 2023" the function returns \<open>None\<close>, although the second pattern on
  its own finds the date 2023-12-31 in it.
\<close>

theorem convert_string_to_datetime_last_update_lost:
  "fst (convert_string_to_datetime ''Last update 31 Dec 2023'' w) = Inr None \<and>
   fst (for_patterns (tl date_patterns) ''Last update 31 Dec 2023'' w) =
     Inr (Some \<lparr>year = 2023, month = 12, day = 31\<rparr>)"
  by code_simp

section \<open>Facts about the model\<close>

lemma strip_prefix_Some: "strip_prefix p s = Some r \<longleftrightarrow> s = p @ r"
  by (induction p s rule: strip_prefix.induct) auto

lemma split_acc_nonempty: "split_acc n sep cur s \<noteq> []"
  by (induction n sep cur s rule: split_acc.induct) (auto split: option.splits)

lemma contains_text_tail:
  assumes "\<not> contains_text (c # cs) sub"
  shows "\<not> contains_text cs sub"
proof
  assume "contains_text cs sub"
  then obtain pre post where "cs = pre @ sub @ post" by (auto simp: contains_text_def)
  then have "c # cs = (c # pre) @ sub @ post" by simp
  then show False using assms unfolding contains_text_def by blast
qed

lemma split_acc_absent:
  "\<not> contains_text s sep \<Longrightarrow> split_acc n sep cur s = [cur @ s]"
proof (induction n sep cur s rule: split_acc.induct)
  case (3 n sep cur c cs)
  have none: "strip_prefix sep (c # cs) = None"
  proof (cases "strip_prefix sep (c # cs)")
    case (Some r)
    then have "c # cs = [] @ sep @ r" by (simp add: strip_prefix_Some)
    then have "contains_text (c # cs) sep" unfolding contains_text_def by blast
    with 3 show ?thesis by simp
  qed simp
  have "\<not> contains_text cs sep" using 3(3) by (rule contains_text_tail)
  with 3 none show ?case by simp
qed simp_all

lemma split_acc_present:
  "contains_text s sep \<Longrightarrow> sep \<noteq> [] \<Longrightarrow> length s \<le> n \<Longrightarrow> 2 \<le> length (split_acc n sep cur s)"
proof (induction n sep cur s rule: split_acc.induct)
  case (1 sep cur s)
  then show ?case by (auto simp: contains_text_def)
next
  case (2 n sep cur)
  then show ?case by (auto simp: contains_text_def)
next
  case (3 n sep cur c cs)
  show ?case
  proof (cases "strip_prefix sep (c # cs)")
    case (Some r)
    have "split_acc n sep [] r \<noteq> []" by (rule split_acc_nonempty)
    then have "1 \<le> length (split_acc n sep [] r)" by (cases "split_acc n sep [] r") auto
    with Some show ?thesis by simp
  next
    case None
    from 3(3) obtain pre post where eq: "c # cs = pre @ sep @ post"
      by (auto simp: contains_text_def)
    have "pre \<noteq> []"
    proof
      assume "pre = []"
      with eq have "strip_prefix sep (c # cs) = Some post" by (simp add: strip_prefix_Some)
      with None show False by simp
    qed
    then obtain p ps where "pre = p # ps" by (cases pre) auto
    with eq have "cs = ps @ sep @ post" by simp
    then have "contains_text cs sep" unfolding contains_text_def by blast
    with 3 None show ?thesis by simp
  qed
qed

lemma split_absent: "\<not> contains_text s sep \<Longrightarrow> split s sep = [s]"
  by (simp add: split_def split_acc_absent)

lemma split_present: "contains_text s sep \<Longrightarrow> sep \<noteq> [] \<Longrightarrow> 2 \<le> length (split s sep)"
  by (simp add: split_def split_acc_present)

lemma index_description:
  "index (split body ''...'') (int (length (split body ''...'')) - 2) = Inr (description_segment body)"
proof (cases "contains_text body ''...''")
  case True
  then have "2 \<le> length (split body ''...'')" by (simp add: split_present)
  with True show ?thesis by (simp add: index_def description_segment_def nat_diff_distrib')
next
  case False
  then show ?thesis by (simp add: index_def description_segment_def split_absent)
qed

subsection \<open>world independence\<close>

lemma try_pattern_fst: "fst (try_pattern p f w) = fst (try_pattern p f w')"
  by (simp add: try_pattern_def split: option.splits sum.splits)

lemma for_patterns_fst: "fst (for_patterns ps f w) = fst (for_patterns ps f w')"
proof (induction ps arbitrary: w w')
  case Nil
  show ?case by simp
next
  case (Cons p ps)
  obtain r w1 where a: "try_pattern p f w = (r, w1)" by (cases "try_pattern p f w")
  obtain r' w1' where b: "try_pattern p f w' = (r', w1')" by (cases "try_pattern p f w'")
  from try_pattern_fst[of p f w w'] a b have "r = r'" by simp
  with a b Cons[of w1 w1'] show ?case by (cases r') auto
qed

lemma convert_fst: "fst (convert_string_to_datetime f w) = fst (convert_string_to_datetime f w')"
  by (simp add: convert_string_to_datetime_def for_patterns_fst[of _ f w w'])

lemma get_news_image_fst: "fst (get_news_image s src i w) = fst (get_news_image s src i w')"
  by (simp add: get_news_image_def Let_def split: response.splits)

lemma process_element_unfold:
  "process_element self s i el w =
    (case title_text el of None \<Rightarrow> (Inl (ElementNotFound NEWS_TITLE_CLASS), w) | Some title \<Rightarrow>
     case body_text el of None \<Rightarrow> (Inl (ElementNotFound NEWS_DESCRIPTION_CLASS), w) | Some body \<Rightarrow>
     case footer_text el of None \<Rightarrow> (Inl (ElementNotFound NEWS_FOOTER_CLASS), w) | Some footer \<Rightarrow>
     (case fst (convert_string_to_datetime footer w) of
        Inl e \<Rightarrow> (Inl e, snd (convert_string_to_datetime footer w))
      | Inr None \<Rightarrow> (Inr No_date, snd (convert_string_to_datetime footer w))
      | Inr (Some date) \<Rightarrow>
          if month_limit self \<le> month date
          then image_step self s i el title (strip (description_segment body)) date (snd (convert_string_to_datetime footer w))
          else (Inr Break, snd (convert_string_to_datetime footer w))))"
  unfolding process_element_def image_step_def
  by (simp add: find_element_def index_description Let_def split_beta
      split: option.splits sum.splits)

lemma image_step_fst: "fst (image_step self s i el t d date w) = fst (image_step self s i el t d date w')"
  using get_news_image_fst[of s _ i w w']
  by (auto simp: image_step_def split_beta split: option.splits sum.splits)

lemma process_element_fst:
  "fst (process_element self s i el w) = fst (process_element self s i el w')"
  unfolding process_element_unfold
  using convert_fst[of _ w w'] image_step_fst[of self s i el _ _ _ "snd (convert_string_to_datetime _ w)" "snd (convert_string_to_datetime _ w')"]
  by (auto split: option.splits sum.splits)



lemma record_of_iff:
  "record_of self s (i, el) = Some d \<longleftrightarrow> fst (process_element self s i el w) = Inr (Appended d)"
  unfolding record_of_def
  by (auto simp: process_element_fst[of self s i el new_world w] split: sum.splits outcome.splits)

lemma record_of_None:
  "record_of self s (i, el) = None \<longleftrightarrow> (\<forall>d. fst (process_element self s i el w) \<noteq> Inr (Appended d))"
  using record_of_iff[of self s i el _ w] by (cases "record_of self s (i, el)") auto

lemma parsed_date_iff:
  "parsed_date el = Some d \<longleftrightarrow>
     (\<exists>t b f. title_text el = Some t \<and> body_text el = Some b \<and> footer_text el = Some f \<and>
        fst (convert_string_to_datetime f w) = Inr (Some d))"
  unfolding parsed_date_def
  by (auto simp: convert_fst[of _ new_world w] split: option.splits sum.splits)

lemma break_iff:
  "fst (process_element self s i el w) = Inr Break \<longleftrightarrow> below_limit self (i, el)"
proof -
  have "fst (process_element self s i el w) = Inr Break \<longleftrightarrow>
        (\<exists>d. parsed_date el = Some d \<and> month d < month_limit self)"
    unfolding parsed_date_iff[of el _ w] process_element_unfold
    by (auto simp: image_step_def split_beta split: option.splits sum.splits)
  then show ?thesis by (auto simp: below_limit_def split: option.splits)
qed

lemma for_elements_payload:
  "fst (for_elements self s i els acc w) =
     acc @ List.map_filter (record_of self s)
             (takeWhile (\<lambda>ie. \<not> below_limit self ie) (enumerate i els))"
proof (induction els arbitrary: i acc w)
  case Nil
  show ?case by (simp add: List.map_filter_simps)
next
  case (Cons el els)
  obtain r w' where pe: "process_element self s i el w = (r, w')"
    by (cases "process_element self s i el w")
  then have r: "fst (process_element self s i el w) = r" by simp
  show ?case
  proof (cases r)
    case (Inl e)
    with r have "\<not> below_limit self (i, el)" "record_of self s (i, el) = None"
      using break_iff[of self s i el w] record_of_None[of self s i el w] by auto
    with pe Inl Cons show ?thesis by (simp add: List.map_filter_simps)
  next
    case (Inr out)
    show ?thesis
    proof (cases out)
      case (Appended d)
      with r Inr have "\<not> below_limit self (i, el)" "record_of self s (i, el) = Some d"
        using break_iff[of self s i el w] record_of_iff[of self s i el d w] by auto
      with pe Inr Appended Cons show ?thesis by (simp add: List.map_filter_simps)
    next
      case No_date
      with r Inr have "\<not> below_limit self (i, el)" "record_of self s (i, el) = None"
        using break_iff[of self s i el w] record_of_None[of self s i el w] by auto
      with pe Inr No_date Cons show ?thesis by (simp add: List.map_filter_simps)
    next
      case Break
      with r Inr have "below_limit self (i, el)"
        using break_iff[of self s i el w] by auto
      with pe Inr Break show ?thesis by (simp add: List.map_filter_simps)
    qed
  qed
qed


lemma raises_iff: "raises self s (i, el) e \<longleftrightarrow> fst (process_element self s i el w) = Inl e"
  by (simp add: raises_def process_element_fst[of self s i el new_world w])

lemma find_index_less: "find_index x ys = Some i \<Longrightarrow> i < length ys"
  by (induction ys arbitrary: i) (auto split: if_splits)

lemma month_of_name_range:
  assumes "month_of_name x = Some m"
  shows "1 \<le> m \<and> m \<le> 12"
proof -
  from assms obtain i where i: "find_index (map ascii_lower x) month_names = Some i" "m = int i + 1"
    by (auto simp: month_of_name_def)
  from i(1) have "i < length month_names" by (rule find_index_less)
  then have "i < 12" by (simp add: month_names_def)
  with i(2) show ?thesis by simp
qed

lemma rest_of_date_month: "rest_of_date r = Some (m, y, l) \<Longrightarrow> 1 \<le> m \<and> m \<le> 12"
  by (auto simp: rest_of_date_def split: option.splits if_splits dest: month_of_name_range)

lemma first_parse_month: "first_parse cs = Some (d, m, y, l) \<Longrightarrow> 1 \<le> m \<and> m \<le> 12"
  by (induction cs rule: first_parse.induct) (auto split: option.splits dest: rest_of_date_month)

lemma strptime_month:
  assumes "strptime g = Inr d"
  shows "1 \<le> month d \<and> month d \<le> 12"
proof (cases "first_parse (day_candidates g)")
  case None
  with assms show ?thesis by (simp add: strptime_def)
next
  case (Some q)
  obtain a m y l where q: "q = (a, m, y, l)" by (cases q)
  from Some q have "1 \<le> m \<and> m \<le> 12" by (auto dest: first_parse_month)
  moreover from assms Some q have "month d = m"
    by (auto simp: strptime_def split: if_splits)
  ultimately show ?thesis by simp
qed

lemma try_pattern_month:
  "fst (try_pattern p f w) = Some (Inr (Some d)) \<Longrightarrow> 1 \<le> month d \<and> month d \<le> 12"
  by (auto simp: try_pattern_def split: option.splits sum.splits dest: strptime_month)

lemma for_patterns_month:
  "fst (for_patterns ps f w) = Inr (Some d) \<Longrightarrow> 1 \<le> month d \<and> month d \<le> 12"
proof (induction ps arbitrary: w)
  case Nil
  then show ?case by simp
next
  case (Cons p ps)
  obtain r w1 where a: "try_pattern p f w = (r, w1)" by (cases "try_pattern p f w")
  show ?case
  proof (cases r)
    case None
    with a Cons show ?thesis by simp
  next
    case (Some x)
    with a Cons.prems have "fst (try_pattern p f w) = Some (Inr (Some d))" by simp
    then show ?thesis by (rule try_pattern_month)
  qed
qed

lemma convert_month:
  "fst (convert_string_to_datetime f w) = Inr (Some d) \<Longrightarrow> 1 \<le> month d \<and> month d \<le> 12"
  by (auto simp: convert_string_to_datetime_def split: if_splits dest: for_patterns_month)

lemma parsed_date_month: "parsed_date el = Some d \<Longrightarrow> 1 \<le> month d \<and> month d \<le> 12"
  unfolding parsed_date_iff[of el d new_world] by (auto dest: convert_month)

lemma never_below_limit: "month_limit self \<le> 1 \<Longrightarrow> \<not> below_limit self ie"
  by (auto simp: below_limit_def split: option.splits dest: parsed_date_month)

lemma set_map_filter_iff: "y \<in> set (List.map_filter f xs) \<longleftrightarrow> (\<exists>x \<in> set xs. f x = Some y)"
  by (induction xs) (auto simp: List.map_filter_simps split: option.splits)

lemma record_of_fields:
  assumes "record_of self s (i, el) = Some d"
  shows "\<exists>title body phrase date name.
           title_text el = Some title \<and> body_text el = Some body \<and>
           search_phrase self = Some phrase \<and> parsed_date el = Some date \<and>
           d = [(''title'', Str title),
                (''date'', Str (strftime date)),
                (''description'', Str (strip (description_segment body))),
                (''search_term_occurrence'',
                   Num (int (count title phrase + count (strip (description_segment body)) phrase))),
                (''contains_money'',
                   Boolean (contains_money title \<or> contains_money (strip (description_segment body)))),
                (''img_file_name'', Str name)]"
proof -
  from assms have "fst (process_element self s i el new_world) = Inr (Appended d)"
    by (simp add: record_of_iff[of _ _ _ _ _ new_world])
  then show ?thesis
    unfolding parsed_date_iff[of el _ new_world] process_element_unfold
    by (auto simp: image_step_def split_beta split: option.splits sum.splits if_splits)
qed

subsection \<open>logs\<close>

lemma try_pattern_log: "set (log w) \<subseteq> set (log (snd (try_pattern p f w)))"
  by (auto simp: try_pattern_def logging_def split: option.splits sum.splits)

lemma for_patterns_log: "set (log w) \<subseteq> set (log (snd (for_patterns ps f w)))"
proof (induction ps arbitrary: w)
  case Nil
  show ?case by simp
next
  case (Cons p ps)
  obtain r w1 where a: "try_pattern p f w = (r, w1)" by (cases "try_pattern p f w")
  with try_pattern_log[of w p f] have "set (log w) \<subseteq> set (log w1)" by simp
  with a Cons[of w1] show ?case by (cases r) auto
qed

lemma convert_log: "set (log w) \<subseteq> set (log (snd (convert_string_to_datetime f w)))"
  by (simp add: convert_string_to_datetime_def for_patterns_log)

lemma get_news_image_log: "set (log w) \<subseteq> set (log (snd (get_news_image s src i w)))"
proof -
  let ?resp = "case src of None \<Rightarrow> Raises RequestException | Some url \<Rightarrow> requests_get s url"
  show ?thesis
    by (cases ?resp) (auto simp: get_news_image_def Let_def logging_def)
qed

lemma image_step_log: "set (log w) \<subseteq> set (log (snd (image_step self s i el t d date w)))"
proof (cases "search_phrase self")
  case None
  then show ?thesis by (simp add: image_step_def)
next
  case p: (Some phrase)
  show ?thesis
  proof (cases "image_src el")
    case None
    with p show ?thesis by (simp add: image_step_def find_element_def)
  next
    case (Some src)
    have "set (log w) \<subseteq> set (log (snd (get_news_image s src i w)))"
      by (rule get_news_image_log)
    with p Some show ?thesis
      by (cases "fst (get_news_image s src i w)")
         (simp_all add: image_step_def find_element_def split_beta)
  qed
qed

lemma process_element_log: "set (log w) \<subseteq> set (log (snd (process_element self s i el w)))"
proof (cases "title_text el")
  case None
  then show ?thesis by (simp add: process_element_unfold)
next
  case t: (Some title)
  show ?thesis
  proof (cases "body_text el")
    case None
    with t show ?thesis by (simp add: process_element_unfold)
  next
    case b: (Some body)
    show ?thesis
    proof (cases "footer_text el")
      case None
      with t b show ?thesis by (simp add: process_element_unfold)
    next
      case f: (Some footer)
      let ?c = "convert_string_to_datetime footer w"
      have c: "set (log w) \<subseteq> set (log (snd ?c))" by (rule convert_log)
      have i: "set (log (snd ?c)) \<subseteq> set (log (snd (image_step self s i el t' d' date (snd ?c))))"
        for t' d' date by (rule image_step_log)
      show ?thesis
      proof (cases "fst ?c")
        case (Inl e)
        with t b f c show ?thesis by (simp add: process_element_unfold)
      next
        case (Inr od)
        show ?thesis
        proof (cases od)
          case None
          with Inr t b f c show ?thesis by (simp add: process_element_unfold)
        next
          case (Some date)
          with Inr t b f c i[of title "strip (description_segment body)" date]
          show ?thesis by (auto simp: process_element_unfold)
        qed
      qed
    qed
  qed
qed

lemma for_elements_log: "set (log w) \<subseteq> set (log (snd (for_elements self s i els acc w)))"
proof (induction els arbitrary: i acc w)
  case Nil
  show ?case by simp
next
  case (Cons el els)
  obtain r w' where pe: "process_element self s i el w = (r, w')"
    by (cases "process_element self s i el w")
  with process_element_log[of w self s i el] have sub: "set (log w) \<subseteq> set (log w')" by simp
  show ?case
  proof (cases r)
    case (Inl e)
    have "set (log w') \<subseteq> set (log (logging (Warning_error_processing_element e) w'))"
      by (auto simp: logging_def)
    with sub pe Inl Cons[of "logging (Warning_error_processing_element e) w'" "Suc i" acc]
    show ?thesis by auto
  next
    case (Inr out)
    with sub pe Cons[of w'] show ?thesis by (cases out) auto
  qed
qed

lemma for_elements_warning:
  "k < length (takeWhile (\<lambda>ie. \<not> below_limit self ie) (enumerate i els)) \<Longrightarrow>
   raises self s (i + k, els ! k) e \<Longrightarrow>
   Warning_error_processing_element e \<in> set (log (snd (for_elements self s i els acc w)))"
proof (induction els arbitrary: i k acc w)
  case Nil
  then show ?case by simp
next
  case (Cons el els)
  obtain r w' where pe: "process_element self s i el w = (r, w')"
    by (cases "process_element self s i el w")
  then have r: "fst (process_element self s i el w) = r" by simp
  from Cons.prems(1) have nb: "\<not> below_limit self (i, el)" by (auto split: if_splits)
  with r have nbreak: "r \<noteq> Inr Break" using break_iff[of self s i el w] by auto
  show ?case
  proof (cases k)
    case 0
    with Cons.prems(2) r have "r = Inl e" by (simp add: raises_iff[of _ _ _ _ _ w])
    moreover have "Warning_error_processing_element e \<in> set (log (logging (Warning_error_processing_element e) w'))"
      by (simp add: logging_def)
    ultimately show ?thesis
      using pe for_elements_log[of "logging (Warning_error_processing_element e) w'" self s "Suc i" els acc]
      by auto
  next
    case (Suc k')
    with Cons.prems nb have 1: "k' < length (takeWhile (\<lambda>ie. \<not> below_limit self ie) (enumerate (Suc i) els))"
      and 2: "raises self s (Suc i + k', els ! k') e" by auto
    note IH = Cons.IH[OF 1 2]
    show ?thesis
    proof (cases r)
      case (Inl e')
      with pe IH show ?thesis by simp
    next
      case (Inr out)
      with pe IH nbreak show ?thesis by (cases out) auto
    qed
  qed
qed

lemma prefix_nth:
  assumes "j < length (takeWhile P (enumerate i xs))"
  shows "(i + j, xs ! j) \<in> set (takeWhile P (enumerate i xs))"
proof -
  let ?p = "takeWhile P (enumerate i xs)"
  have len: "length ?p \<le> length xs"
    using length_takeWhile_le[of P "enumerate i xs"] by simp
  have "?p ! j = enumerate i xs ! j" using assms by (rule takeWhile_nth)
  also have "\<dots> = (i + j, xs ! j)" using assms len by (simp add: nth_enumerate_eq)
  finally have "?p ! j = (i + j, xs ! j)" .
  with assms show ?thesis by (metis nth_mem)
qed

lemma record_of_well_formed:
  assumes "parsed_date el = Some date" and "month_limit self \<le> month date"
    and "search_phrase self = Some phrase" and "image_src el = Some src"
    and "fst (get_news_image s src i w) = Inr name"
  shows "\<exists>d. record_of self s (i, el) = Some d \<and> map_of d ''img_file_name'' = Some (Str name)"
proof -
  from assms(1) obtain t b f where tbf: "title_text el = Some t" "body_text el = Some b"
    "footer_text el = Some f" "fst (convert_string_to_datetime f new_world) = Inr (Some date)"
    unfolding parsed_date_iff[of el date new_world] by blast
  let ?w1 = "snd (convert_string_to_datetime f new_world)"
  from assms(5) have g: "fst (get_news_image s src i ?w1) = Inr name"
    by (simp add: get_news_image_fst[of s src i ?w1 w])
  have "\<exists>d. fst (process_element self s i el new_world) = Inr (Appended d) \<and>
          map_of d ''img_file_name'' = Some (Str name)"
    using tbf assms(2,3,4) g
    by (simp add: process_element_unfold image_step_def find_element_def split_beta)
  then show ?thesis by (simp add: record_of_iff[of self s i el _ new_world])
qed

lemma record_of_request_raises:
  assumes "image_src el = Some (Some url)" and "requests_get s url = Raises e"
  shows "record_of self s (i, el) = None"
proof -
  have g: "fst (get_news_image s (Some url) i w) = Inl e" for w
    using assms(2) by (simp add: get_news_image_def Let_def)
  have "fst (process_element self s i el new_world) \<noteq> Inr (Appended d)" for d
    using assms(1) g
    by (auto simp: process_element_unfold image_step_def find_element_def split_beta
        split: option.splits sum.splits)
  then show ?thesis by (simp add: record_of_None[of self s i el new_world])
qed




section \<open>The extraction loop\<close>




section \<open>The description of an article\<close>

text \<open>
  Claim C4 says that a rendered description without the delimiter "..." makes the indexing
  fail, so that the article is skipped with a warning. It does not: the split of such a
  text has one segment, the index \<open>len(description) - 2\<close> is then \<open>-1\<close>, and \<open>-1\<close> selects
  that one segment. The article below has no "..." in its description and is extracted,
  with the whole description, and nothing but the image is logged.
\<close>

theorem description_without_ellipsis_counterexample:
  "body_text gaza_article = Some ''Situation in Gaza worsens, Gaza residents flee'' \<and>
   \<not> contains_text ''Situation in Gaza worsens, Gaza residents flee'' ''...'' \<and>
   fst (process_news_payload gaza_scrapper (news_site []) [gaza_article] new_world) =
     [[(''title'', Str ''Gaza under fire''), (''date'', Str ''05 Mar 2024''),
       (''description'', Str ''Situation in Gaza worsens, Gaza residents flee''),
       (''search_term_occurrence'', Num 3), (''contains_money'', Boolean False),
       (''img_file_name'', Str ''img_0.png'')]] \<and>
   log (snd (process_news_payload gaza_scrapper (news_site []) [gaza_article] new_world)) =
     [Info_image_directory_created, Info_image_saved ''img_0.png'']"
proof -
  have a: "body_text gaza_article = Some ''Situation in Gaza worsens, Gaza residents flee''"
    by code_simp
  have "length (split ''Situation in Gaza worsens, Gaza residents flee'' ''...'') = 1"
    by code_simp
  then have b: "\<not> contains_text ''Situation in Gaza worsens, Gaza residents flee'' ''...''"
    using split_present[of "''Situation in Gaza worsens, Gaza residents flee''" "''...''"]
    by auto
  have c: "fst (process_news_payload gaza_scrapper (news_site []) [gaza_article] new_world) =
     [[(''title'', Str ''Gaza under fire''), (''date'', Str ''05 Mar 2024''),
       (''description'', Str ''Situation in Gaza worsens, Gaza residents flee''),
       (''search_term_occurrence'', Num 3), (''contains_money'', Boolean False),
       (''img_file_name'', Str ''img_0.png'')]]"
    by code_simp
  have d: "log (snd (process_news_payload gaza_scrapper (news_site []) [gaza_article] new_world)) =
     [Info_image_directory_created, Info_image_saved ''img_0.png'']"
    by code_simp
  from a b c d show ?thesis by blast
qed

text \<open>
  Claim C4, amended. The indexing \<open>description[len(description) - 2]\<close> never fails. For a
  rendered description that contains "..." it selects the second-to-last segment of the
  split; for one that does not, it selects the whole text. In both cases the description of
  the record built from the element is the selected text with surrounding whitespace
  trimmed.
\<close>

theorem description_is_segment:
  "index (split body ''...'') (int (length (split body ''...'')) - 2) =
     Inr (if contains_text body ''...''
          then split body ''...'' ! (length (split body ''...'') - 2)
          else body) \<and>
   (body_text el = Some body \<longrightarrow> fst (process_element self s i el w) = Inr (Appended d) \<longrightarrow>
      map_of d ''description'' = Some (Str (strip (description_segment body))))"
proof (intro conjI impI)
  show "index (split body ''...'') (int (length (split body ''...'')) - 2) =
     Inr (if contains_text body ''...''
          then split body ''...'' ! (length (split body ''...'') - 2)
          else body)"
    using index_description[of body] by (simp add: description_segment_def)
next
  assume b: "body_text el = Some body" and "fst (process_element self s i el w) = Inr (Appended d)"
  then have "record_of self s (i, el) = Some d" by (simp add: record_of_iff[of self s i el d w])
  from record_of_fields[OF this] b
  show "map_of d ''description'' = Some (Str (strip (description_segment body)))" by auto
qed

theorem description_is_segment_witness:
  "body_text january_article = Some ''2 days ago ... Talks resume ...'' \<and>
   fst (process_element (init 3 5 (Some ''Gaza'')) (news_site []) 0 january_article new_world) =
     Inr (Appended
       [(''title'', Str ''Aid package worth $2,500.00 approved''),
        (''date'', Str ''28 Jan 2024''), (''description'', Str ''Talks resume''),
        (''search_term_occurrence'', Num 0), (''contains_money'', Boolean True),
        (''img_file_name'', Str ''Unavailable'')]) \<and>
   strip (description_segment ''2 days ago ... Talks resume ...'') = ''Talks resume''"
proof -
  let ?d = "[(''title'', Str ''Aid package worth $2,500.00 approved''),
        (''date'', Str ''28 Jan 2024''), (''description'', Str ''Talks resume''),
        (''search_term_occurrence'', Num 0), (''contains_money'', Boolean True),
        (''img_file_name'', Str ''Unavailable'')]"
  have a: "body_text january_article = Some ''2 days ago ... Talks resume ...''" by code_simp
  have b: "fst (process_element (init 3 5 (Some ''Gaza'')) (news_site []) 0 january_article new_world) =
     Inr (Appended ?d)" by code_simp
  from description_is_segment[of "''2 days ago ... Talks resume ...''" january_article
      "init 3 5 (Some ''Gaza'')" "news_site []" 0 new_world ?d] a b
  have "map_of ?d ''description'' =
      Some (Str (strip (description_segment ''2 days ago ... Talks resume ...'')))" by blast
  then have c: "strip (description_segment ''2 days ago ... Talks resume ...'') = ''Talks resume''"
    by simp
  from a b c show ?thesis by blast
qed


section \<open>One failing element does not end the batch\<close>

text \<open>
  Claim C6. \<open>process_news_payload\<close> never raises: the loop returns a payload for every list,
  since every exception raised while an element is processed is caught by
  \<open>except Exception\<close>. When the element at a position before the stop of the loop raises
  an exception, a warning with that exception is in the log at the end; every element
  before the stop from which a record is built has its record in the payload, whichever
  elements raise; and the loop goes on after the failing element as it would from the next
  position, with the payload collected so far.
\<close>

theorem process_news_payload_isolates_failures:
  assumes "k < length (takeWhile (\<lambda>ie. \<not> below_limit self ie) (enumerate 0 news_list))"
    and "raises self s (k, news_list ! k) e"
  shows "Warning_error_processing_element e \<in>
           set (log (snd (process_news_payload self s news_list w))) \<and>
         (\<forall>j d. j < length (takeWhile (\<lambda>ie. \<not> below_limit self ie) (enumerate 0 news_list)) \<longrightarrow>
                record_of self s (j, news_list ! j) = Some d \<longrightarrow>
                d \<in> set (fst (process_news_payload self s news_list w))) \<and>
         (\<forall>payload w'. fst (for_elements self s k (news_list ! k # els) payload w') =
                         fst (for_elements self s (Suc k) els payload w'))"
proof (intro conjI allI impI)
  from assms show "Warning_error_processing_element e \<in>
           set (log (snd (process_news_payload self s news_list w)))"
    unfolding process_news_payload_def
    using for_elements_warning[of k self 0 news_list s e "[]" w] by simp
next
  fix j d
  assume j: "j < length (takeWhile (\<lambda>ie. \<not> below_limit self ie) (enumerate 0 news_list))"
    and d: "record_of self s (j, news_list ! j) = Some d"
  from prefix_nth[OF j] have "(j, news_list ! j) \<in>
      set (takeWhile (\<lambda>ie. \<not> below_limit self ie) (enumerate 0 news_list))" by simp
  with d show "d \<in> set (fst (process_news_payload self s news_list w))"
    unfolding process_news_payload_def for_elements_payload
    by (auto simp: set_map_filter_iff)
next
  fix payload w'
  from assms(2) have r: "record_of self s (k, news_list ! k) = None"
    "\<not> below_limit self (k, news_list ! k)"
    using record_of_None[of self s k "news_list ! k" new_world]
      break_iff[of self s k "news_list ! k" new_world]
    by (auto simp: raises_def)
  then show "fst (for_elements self s k (news_list ! k # els) payload w') =
        fst (for_elements self s (Suc k) els payload w')"
    unfolding for_elements_payload by (simp add: List.map_filter_simps)
qed

text \<open>
  In a run on four elements the second has no title and the third an image whose download
  times out: both are logged and skipped, the first and the fourth are extracted.
\<close>

theorem process_news_payload_isolates_failures_witness:
  "1 < length (takeWhile (\<lambda>ie. \<not> below_limit gaza_scrapper ie)
         (enumerate 0 [gaza_article, untitled_article, slow_image_article, gaza_article])) \<and>
   raises gaza_scrapper (news_site [])
     (1, [gaza_article, untitled_article, slow_image_article, gaza_article] ! 1)
     (ElementNotFound NEWS_TITLE_CLASS) \<and>
   Warning_error_processing_element (ElementNotFound NEWS_TITLE_CLASS) \<in>
     set (log (snd (process_news_payload gaza_scrapper (news_site [])
                      [gaza_article, untitled_article, slow_image_article, gaza_article] new_world))) \<and>
   length (fst (process_news_payload gaza_scrapper (news_site [])
                  [gaza_article, untitled_article, slow_image_article, gaza_article] new_world)) = 2"
proof -
  let ?l = "[gaza_article, untitled_article, slow_image_article, gaza_article]"
  have a: "1 < length (takeWhile (\<lambda>ie. \<not> below_limit gaza_scrapper ie) (enumerate 0 ?l))"
    by code_simp
  have b: "raises gaza_scrapper (news_site []) (1, ?l ! 1) (ElementNotFound NEWS_TITLE_CLASS)"
    by code_simp
  from process_news_payload_isolates_failures[OF a b, of new_world]
  have c: "Warning_error_processing_element (ElementNotFound NEWS_TITLE_CLASS) \<in>
     set (log (snd (process_news_payload gaza_scrapper (news_site []) ?l new_world)))"
    by blast
  have d: "length (fst (process_news_payload gaza_scrapper (news_site []) ?l new_world)) = 2"
    by code_simp
  from a b c d show ?thesis by blast
qed


section \<open>The count of the search phrase\<close>

lemma occurs_at_Cons: "occurs_at sub (c # cs) (Suc p) = occurs_at sub cs p"
  by (simp add: occurs_at_def)

lemma occurs_at_0: "occurs_at sub s 0 \<longleftrightarrow> strip_prefix sub s \<noteq> None"
proof
  assume "occurs_at sub s 0"
  then have "take (length sub) s = sub" by (simp add: occurs_at_def)
  then have "s = sub @ drop (length sub) s" by (metis append_take_drop_id)
  then have "strip_prefix sub s = Some (drop (length sub) s)" by (simp add: strip_prefix_Some)
  then show "strip_prefix sub s \<noteq> None" by simp
next
  assume "strip_prefix sub s \<noteq> None"
  then obtain r where "strip_prefix sub s = Some r" by blast
  then have "s = sub @ r" by (simp add: strip_prefix_Some)
  then show "occurs_at sub s 0" by (simp add: occurs_at_def)
qed

lemma occurs_at_append: "occurs_at sub (sub @ rest) (length sub + p) = occurs_at sub rest p"
  by (simp add: occurs_at_def)

lemma occurs_at_Nil: "sub \<noteq> [] \<Longrightarrow> \<not> occurs_at sub [] p"
  by (simp add: occurs_at_def)

lemma apart_shift: "apart n (map (\<lambda>p. p + k) ps) = apart n ps"
  by (induction n ps rule: apart.induct) simp_all

lemma apart_unshift:
  "apart n ps \<Longrightarrow> \<forall>p \<in> set ps. k \<le> p \<Longrightarrow> apart n (map (\<lambda>p. p - k) ps)"
  by (induction n ps rule: apart.induct) auto

lemma apart_Cons: "apart n qs \<Longrightarrow> \<forall>q \<in> set qs. p + n \<le> q \<Longrightarrow> apart n (p # qs)"
  by (cases qs) simp_all

lemma apart_tail: "apart n (p # qs) \<Longrightarrow> apart n qs"
  by (cases qs) simp_all

lemma apart_after: "apart n (p # qs) \<Longrightarrow> q \<in> set qs \<Longrightarrow> p + n \<le> q"
proof (induction qs arbitrary: p)
  case Nil
  then show ?case by simp
next
  case (Cons r rs)
  from Cons.prems(1) have pr: "p + n \<le> r" and a: "apart n (r # rs)" by simp_all
  show ?case
  proof (cases "q = r")
    case True
    with pr show ?thesis by simp
  next
    case False
    with Cons.prems(2) have "q \<in> set rs" by simp
    from Cons.IH[OF a this] pr show ?thesis by simp
  qed
qed

lemma count_acc_attained:
  "sub \<noteq> [] \<Longrightarrow> \<exists>ps. non_overlapping sub s ps \<and> length ps = count_acc n sub s"
proof (induction n sub s rule: count_acc.induct)
  case (1 sub s)
  have "non_overlapping sub s []" by (simp add: non_overlapping_def)
  then show ?case by force
next
  case (2 n sub)
  have "non_overlapping sub [] []" by (simp add: non_overlapping_def)
  then show ?case by force
next
  case (3 n sub c cs)
  show ?case
  proof (cases "strip_prefix sub (c # cs)")
    case None
    from 3(1)[OF None 3(3)] obtain ps where
      ps: "non_overlapping sub cs ps" "length ps = count_acc n sub cs" by blast
    have "map (\<lambda>p. p + 1) ps = map Suc ps" by simp
    with ps(1) have "non_overlapping sub (c # cs) (map Suc ps)"
      using apart_shift[of "length sub" 1 ps]
      by (auto simp: non_overlapping_def occurs_at_Cons)
    with ps(2) None show ?thesis by force
  next
    case (Some rest)
    then have eq: "c # cs = sub @ rest" by (simp add: strip_prefix_Some)
    from 3(2)[OF Some 3(3)] obtain ps where
      ps: "non_overlapping sub rest ps" "length ps = count_acc n sub rest" by blast
    let ?qs = "map (\<lambda>p. p + length sub) ps"
    have a: "apart (length sub) ?qs" using ps(1) by (simp add: non_overlapping_def apart_shift)
    have "apart (length sub) (0 # ?qs)" by (rule apart_Cons[OF a]) auto
    moreover have "occurs_at sub (c # cs) 0" by (simp add: occurs_at_0 Some)
    moreover have "\<forall>q \<in> set ?qs. occurs_at sub (c # cs) q"
      using ps(1) occurs_at_append[of sub rest]
      by (auto simp: non_overlapping_def eq add.commute)
    ultimately have "non_overlapping sub (c # cs) (0 # ?qs)" by (simp add: non_overlapping_def)
    moreover have "length (0 # ?qs) = count_acc (Suc n) sub (c # cs)" using ps(2) Some by simp
    ultimately show ?thesis by blast
  qed
qed

lemma count_acc_greatest:
  "sub \<noteq> [] \<Longrightarrow> length s \<le> n \<Longrightarrow> non_overlapping sub s ps \<Longrightarrow> length ps \<le> count_acc n sub s"
proof (induction n sub s arbitrary: ps rule: count_acc.induct)
  case (1 sub s)
  then have "s = []" by simp
  with 1 have "ps = []" by (cases ps) (auto simp: non_overlapping_def occurs_at_Nil)
  then show ?case by simp
next
  case (2 n sub)
  then have "ps = []" by (cases ps) (auto simp: non_overlapping_def occurs_at_Nil)
  then show ?case by simp
next
  case (3 n sub c cs)
  from 3(5) have ap: "apart (length sub) ps" and oc: "\<forall>p \<in> set ps. occurs_at sub (c # cs) p"
    by (simp_all add: non_overlapping_def)
  show ?case
  proof (cases "strip_prefix sub (c # cs)")
    case None
    then have no: "\<not> occurs_at sub (c # cs) 0" by (simp add: occurs_at_0)
    have pos: "\<forall>p \<in> set ps. 1 \<le> p"
    proof
      fix p assume "p \<in> set ps"
      with oc no show "1 \<le> p" by (cases p) auto
    qed
    let ?qs = "map (\<lambda>p. p - 1) ps"
    have a: "apart (length sub) ?qs" by (rule apart_unshift[OF ap pos])
    have "\<forall>q \<in> set ?qs. occurs_at sub cs q"
    proof
      fix q assume "q \<in> set ?qs"
      then obtain p where p: "p \<in> set ps" "q = p - 1" by auto
      with pos have "p = Suc q" by force
      with oc p(1) show "occurs_at sub cs q" by (auto simp: occurs_at_Cons)
    qed
    with a have "non_overlapping sub cs ?qs" by (simp add: non_overlapping_def)
    moreover from 3(4) have "length cs \<le> n" by simp
    ultimately have "length ?qs \<le> count_acc n sub cs" using 3(1)[OF None 3(3)] by blast
    with None show ?thesis by simp
  next
    case (Some rest)
    then have eq: "c # cs = sub @ rest" by (simp add: strip_prefix_Some)
    show ?thesis
    proof (cases ps)
      case Nil
      then show ?thesis by simp
    next
      case (Cons p qs)
      have far: "\<forall>q \<in> set qs. length sub \<le> q"
      proof
        fix q assume "q \<in> set qs"
        from apart_after[OF ap[unfolded Cons] this] show "length sub \<le> q" by simp
      qed
      let ?rs = "map (\<lambda>q. q - length sub) qs"
      from ap Cons have "apart (length sub) qs" using apart_tail by blast
      then have a: "apart (length sub) ?rs" using far by (rule apart_unshift)
      have "\<forall>r \<in> set ?rs. occurs_at sub rest r"
      proof
        fix r assume "r \<in> set ?rs"
        then obtain q where q: "q \<in> set qs" "r = q - length sub" by auto
        with far have "q = length sub + r" by force
        moreover from q(1) oc Cons have "occurs_at sub (sub @ rest) q" by (simp add: eq)
        ultimately show "occurs_at sub rest r" by (simp add: occurs_at_append)
      qed
      with a have "non_overlapping sub rest ?rs" by (simp add: non_overlapping_def)
      moreover from 3(3) 3(4) eq have "length rest \<le> n"
        by (cases sub) (auto dest: arg_cong[where f = length])
      ultimately have "length ?rs \<le> count_acc n sub rest" using 3(2)[OF Some 3(3)] by blast
      with Some Cons show ?thesis by simp
    qed
  qed
qed

lemma occurs_at_empty: "{p. occurs_at [] s p} = {..length s}"
  by (auto simp: occurs_at_def)

lemma count_occurrence_count: "occurrence_count sub s (count s sub)"
proof (cases "sub = []")
  case True
  then show ?thesis by (simp add: occurrence_count_def count_def occurs_at_empty)
next
  case False
  from count_acc_attained[OF False, of s "length s"] count_acc_greatest[OF False, of s "length s"]
  show ?thesis using False by (simp add: occurrence_count_def count_def)
qed

lemma occurrence_count_unique:
  assumes "occurrence_count sub s a" "occurrence_count sub s b"
  shows "a = b"
proof (cases "sub = []")
  case True
  with assms show ?thesis by (simp add: occurrence_count_def)
next
  case False
  with assms obtain ps qs where
    "non_overlapping sub s ps" "length ps = a" "non_overlapping sub s qs" "length qs = b"
    and "\<forall>ps. non_overlapping sub s ps \<longrightarrow> length ps \<le> a"
    and "\<forall>ps. non_overlapping sub s ps \<longrightarrow> length ps \<le> b"
    by (auto simp: occurrence_count_def)
  then have "a \<le> b" "b \<le> a" by blast+
  then show ?thesis by simp
qed

lemma occurs_at_finite: "finite {p. occurs_at sub s p}"
proof -
  have "{p. occurs_at sub s p} \<subseteq> {..length s}" by (auto simp: occurs_at_def)
  then show ?thesis by (rule finite_subset) simp
qed

lemma apart_distinct: "0 < n \<Longrightarrow> apart n ps \<Longrightarrow> distinct ps"
proof (induction ps)
  case Nil
  show ?case by simp
next
  case (Cons p qs)
  have "p \<notin> set qs"
  proof
    assume "p \<in> set qs"
    from apart_after[OF Cons.prems(2) this] Cons.prems(1) show False by simp
  qed
  moreover have "distinct qs" using Cons.IH[OF Cons.prems(1)] apart_tail[OF Cons.prems(2)] .
  ultimately show ?case by simp
qed

lemma non_overlapping_le_card:
  assumes "sub \<noteq> []" "non_overlapping sub s ps"
  shows "length ps \<le> card {p. occurs_at sub s p}"
proof -
  from assms have "distinct ps" by (auto simp: non_overlapping_def intro: apart_distinct)
  then have "length ps = card (set ps)" by (simp add: distinct_card)
  moreover from assms(2) have "set ps \<subseteq> {p. occurs_at sub s p}"
    by (auto simp: non_overlapping_def)
  ultimately show ?thesis using occurs_at_finite[of sub s] by (simp add: card_mono)
qed

lemma sorted_apart:
  "sorted ps \<Longrightarrow> distinct ps \<Longrightarrow> \<forall>p \<in> set ps. \<forall>q \<in> set ps. p < q \<longrightarrow> p + n \<le> q \<Longrightarrow>
     apart n ps"
proof (induction n ps rule: apart.induct)
  case (3 n p q ps)
  from 3(2,3) have "p < q" by (auto simp: le_less)
  with 3(4) have "p + n \<le> q" by simp
  moreover have "apart n (q # ps)" using 3 by simp
  ultimately show ?case by simp
qed simp_all

lemma occurrence_count_le_card:
  assumes "occurrence_count sub s k"
  shows "k \<le> card {p. occurs_at sub s p}"
proof (cases "sub = []")
  case True
  with assms show ?thesis by (simp add: occurrence_count_def)
next
  case False
  with assms obtain ps where "non_overlapping sub s ps" "length ps = k"
    by (auto simp: occurrence_count_def)
  with non_overlapping_le_card[OF False] show ?thesis by blast
qed

lemma occurrence_count_card:
  assumes "occurrence_count sub s k"
    and "\<forall>p q. occurs_at sub s p \<and> occurs_at sub s q \<and> p < q \<longrightarrow> p + length sub \<le> q"
  shows "k = card {p. occurs_at sub s p}"
proof (cases "sub = []")
  case True
  with assms show ?thesis by (simp add: occurrence_count_def)
next
  case False
  let ?S = "{p. occurs_at sub s p}"
  let ?ps = "sorted_list_of_set ?S"
  have fin: "finite ?S" by (rule occurs_at_finite)
  have st: "set ?ps = ?S" using fin by simp
  have "apart (length sub) ?ps"
  proof (rule sorted_apart)
    show "sorted ?ps" by simp
    show "distinct ?ps" by simp
    show "\<forall>p \<in> set ?ps. \<forall>q \<in> set ?ps. p < q \<longrightarrow> p + length sub \<le> q"
      using assms(2) unfolding st by blast
  qed
  then have "non_overlapping sub s ?ps" unfolding non_overlapping_def st by simp
  moreover from assms(1) False have "\<forall>ps. non_overlapping sub s ps \<longrightarrow> length ps \<le> k"
    by (simp add: occurrence_count_def)
  ultimately have "length ?ps \<le> k" by blast
  then have "card ?S \<le> k" by simp
  with occurrence_count_le_card[OF assms(1)] show ?thesis by simp
qed

text \<open>
  Claim C7 says that the field is the number of occurrences of the search phrase. It is not
  when occurrences overlap: \<open>str.count\<close> resumes its scan after the end of each occurrence
  it finds. The phrase "ana" occurs twice in the title "Banana trade", at the positions 1
  and 3, and the record of the article has the count 1.
\<close>

theorem search_term_occurrence_overlap_counterexample:
  "occurs_at ''ana'' ''Banana trade'' 1 \<and> occurs_at ''ana'' ''Banana trade'' 3 \<and>
   fst (process_news_payload \<lparr>month_limit = 3, search_phrase = Some ''ana''\<rparr> (news_site [])
          [banana_article] new_world) =
     [[(''title'', Str ''Banana trade''), (''date'', Str ''09 Mar 2024''),
       (''description'', Str ''Prices rise''),
       (''search_term_occurrence'', Num 1), (''contains_money'', Boolean False),
       (''img_file_name'', Str ''img_0.png'')]]"
proof -
  have a: "occurs_at ''ana'' ''Banana trade'' 1" by (simp add: occurs_at_def)
  have b: "occurs_at ''ana'' ''Banana trade'' 3" by (simp add: occurs_at_def eval_nat_numeral)
  have c: "fst (process_news_payload \<lparr>month_limit = 3, search_phrase = Some ''ana''\<rparr>
          (news_site []) [banana_article] new_world) =
     [[(''title'', Str ''Banana trade''), (''date'', Str ''09 Mar 2024''),
       (''description'', Str ''Prices rise''),
       (''search_term_occurrence'', Num 1), (''contains_money'', Boolean False),
       (''img_file_name'', Str ''img_0.png'')]]"
    by code_simp
  from a b c show ?thesis by blast
qed

text \<open>
  Claim C7, amended. In every record of the payload the field \<open>search_term_occurrence\<close> is
  the sum of two counts, one for the title of the record and one for its description, each
  text counted on its own. The count of the search phrase in a text is the greatest number
  of occurrences of the phrase in the text of which no two overlap, an occurrence being a
  position where the text holds the phrase character for character (so literal and
  case-sensitive); for the empty phrase it is the number of positions of the text, the end
  included. There is one such number for a phrase and a text. It is the number of
  occurrences of the phrase in the text whenever no two occurrences overlap, and it is
  never more. For the phrase "Gaza", the title "Gaza under fire" and the description
  "Situation in Gaza worsens, Gaza residents flee" the counts are 1 and 2, and the field
  is 3.
\<close>

theorem search_term_occurrence_counts:
  "(\<forall>d \<in> set (fst (process_news_payload self s news_list w)).
      \<exists>title description phrase a b.
        search_phrase self = Some phrase \<and>
        map_of d ''title'' = Some (Str title) \<and>
        map_of d ''description'' = Some (Str description) \<and>
        occurrence_count phrase title a \<and> occurrence_count phrase description b \<and>
        map_of d ''search_term_occurrence'' = Some (Num (int (a + b)))) \<and>
   (\<forall>phrase text a b.
      occurrence_count phrase text a \<longrightarrow> occurrence_count phrase text b \<longrightarrow> a = b) \<and>
   (\<forall>phrase text k.
      occurrence_count phrase text k \<longrightarrow>
      k \<le> card {p. occurs_at phrase text p} \<and>
      ((\<forall>p q. occurs_at phrase text p \<and> occurs_at phrase text q \<and> p < q \<longrightarrow>
               p + length phrase \<le> q) \<longrightarrow>
       k = card {p. occurs_at phrase text p})) \<and>
   occurrence_count ''Gaza'' ''Gaza under fire'' 1 \<and>
   occurrence_count ''Gaza'' ''Situation in Gaza worsens, Gaza residents flee'' 2"
proof -
  have 1: "\<exists>title description phrase a b.
        search_phrase self = Some phrase \<and>
        map_of d ''title'' = Some (Str title) \<and>
        map_of d ''description'' = Some (Str description) \<and>
        occurrence_count phrase title a \<and> occurrence_count phrase description b \<and>
        map_of d ''search_term_occurrence'' = Some (Num (int (a + b)))"
    if "d \<in> set (fst (process_news_payload self s news_list w))" for d
  proof -
    from that obtain ie where "record_of self s ie = Some d"
      unfolding process_news_payload_def for_elements_payload
      by (auto simp: set_map_filter_iff)
    then have "record_of self s (fst ie, snd ie) = Some d" by simp
    from record_of_fields[OF this] obtain title description phrase where
      f: "search_phrase self = Some phrase" "map_of d ''title'' = Some (Str title)"
        "map_of d ''description'' = Some (Str description)"
        "map_of d ''search_term_occurrence'' =
           Some (Num (int (count title phrase + count description phrase)))"
      by auto
    have "occurrence_count phrase title (count title phrase)"
      "occurrence_count phrase description (count description phrase)"
      by (rule count_occurrence_count)+
    with f show ?thesis by blast
  qed
  have 2: "a = b" if "occurrence_count phrase t a" "occurrence_count phrase t b"
    for phrase t a b
    using that by (rule occurrence_count_unique)
  have 3: "k \<le> card {p. occurs_at phrase t p} \<and>
      ((\<forall>p q. occurs_at phrase t p \<and> occurs_at phrase t q \<and> p < q \<longrightarrow>
               p + length phrase \<le> q) \<longrightarrow>
       k = card {p. occurs_at phrase t p})"
    if "occurrence_count phrase t k" for phrase t k
    using occurrence_count_le_card[OF that] occurrence_count_card[OF that] by blast
  have "count ''Gaza under fire'' ''Gaza'' = 1" by code_simp
  with count_occurrence_count[of "''Gaza''" "''Gaza under fire''"]
  have 4: "occurrence_count ''Gaza'' ''Gaza under fire'' 1" by simp
  have "count ''Situation in Gaza worsens, Gaza residents flee'' ''Gaza'' = 2" by code_simp
  with count_occurrence_count[of "''Gaza''" "''Situation in Gaza worsens, Gaza residents flee''"]
  have 5: "occurrence_count ''Gaza'' ''Situation in Gaza worsens, Gaza residents flee'' 2"
    by simp
  from 1 have 1: "\<forall>d \<in> set (fst (process_news_payload self s news_list w)).
      \<exists>title description phrase a b.
        search_phrase self = Some phrase \<and>
        map_of d ''title'' = Some (Str title) \<and>
        map_of d ''description'' = Some (Str description) \<and>
        occurrence_count phrase title a \<and> occurrence_count phrase description b \<and>
        map_of d ''search_term_occurrence'' = Some (Num (int (a + b)))" by blast
  from 2 have 2: "\<forall>phrase text a b.
      occurrence_count phrase text a \<longrightarrow> occurrence_count phrase text b \<longrightarrow> a = b" by blast
  from 3 have 3: "\<forall>phrase text k.
      occurrence_count phrase text k \<longrightarrow>
      k \<le> card {p. occurs_at phrase text p} \<and>
      ((\<forall>p q. occurs_at phrase text p \<and> occurs_at phrase text q \<and> p < q \<longrightarrow>
               p + length phrase \<le> q) \<longrightarrow>
       k = card {p. occurs_at phrase text p})" by blast
  from 1 2 3 4 5 show ?thesis by (intro conjI) assumption+
qed

theorem search_term_occurrence_counts_witness:
  "[(''title'', Str ''Gaza under fire''), (''date'', Str ''05 Mar 2024''),
    (''description'', Str ''Situation in Gaza worsens, Gaza residents flee''),
    (''search_term_occurrence'', Num 3), (''contains_money'', Boolean False),
    (''img_file_name'', Str ''img_0.png'')]
     \<in> set (fst (process_news_payload gaza_scrapper (news_site []) [gaza_article] new_world)) \<and>
   (\<exists>title description phrase a b.
      search_phrase gaza_scrapper = Some phrase \<and>
      title = ''Gaza under fire'' \<and>
      description = ''Situation in Gaza worsens, Gaza residents flee'' \<and>
      occurrence_count phrase title a \<and> occurrence_count phrase description b \<and>
      a = 1 \<and> b = 2 \<and> Num 3 = Num (int (a + b))) \<and>
   occurs_at ''Gaza'' ''Gaza under fire'' 0 \<and>
   card {p. occurs_at ''Gaza'' ''Gaza under fire'' p} = 1"
proof -
  let ?d = "[(''title'', Str ''Gaza under fire''), (''date'', Str ''05 Mar 2024''),
    (''description'', Str ''Situation in Gaza worsens, Gaza residents flee''),
    (''search_term_occurrence'', Num 3), (''contains_money'', Boolean False),
    (''img_file_name'', Str ''img_0.png'')]"
  note t = search_term_occurrence_counts[of gaza_scrapper "news_site []" "[gaza_article]" new_world]
  have a: "?d \<in> set (fst (process_news_payload gaza_scrapper (news_site []) [gaza_article] new_world))"
    by code_simp
  have g: "search_phrase gaza_scrapper = Some ''Gaza''" by code_simp
  from t a
  have "\<exists>title description phrase a b.
        search_phrase gaza_scrapper = Some phrase \<and>
        map_of ?d ''title'' = Some (Str title) \<and>
        map_of ?d ''description'' = Some (Str description) \<and>
        occurrence_count phrase title a \<and> occurrence_count phrase description b \<and>
        map_of ?d ''search_term_occurrence'' = Some (Num (int (a + b)))"
    by blast
  then obtain x y where xy: "occurrence_count ''Gaza'' ''Gaza under fire'' x"
    "occurrence_count ''Gaza'' ''Situation in Gaza worsens, Gaza residents flee'' y"
    "Num 3 = Num (int (x + y))"
    using g by auto
  from t have u: "occurrence_count ''Gaza'' ''Gaza under fire'' 1"
    "occurrence_count ''Gaza'' ''Situation in Gaza worsens, Gaza residents flee'' 2"
    by blast+
  from t xy(1) u(1) have x: "x = 1" by blast
  from t xy(2) u(2) have y: "y = 2" by blast
  from g xy x y have b: "\<exists>title description phrase a b.
      search_phrase gaza_scrapper = Some phrase \<and>
      title = ''Gaza under fire'' \<and>
      description = ''Situation in Gaza worsens, Gaza residents flee'' \<and>
      occurrence_count phrase title a \<and> occurrence_count phrase description b \<and>
      a = 1 \<and> b = 2 \<and> Num 3 = Num (int (a + b))"
    by blast
  have c: "occurs_at ''Gaza'' ''Gaza under fire'' 0" by (simp add: occurs_at_def)
  have "\<forall>p \<in> set [0..<12]. occurs_at ''Gaza'' ''Gaza under fire'' p \<longrightarrow> p = 0"
    by code_simp
  moreover have "p \<in> set [0..<12]" if "occurs_at ''Gaza'' ''Gaza under fire'' p" for p
    using that by (simp add: occurs_at_def)
  ultimately have only: "occurs_at ''Gaza'' ''Gaza under fire'' p \<Longrightarrow> p = 0" for p by blast
  then have "\<forall>p q. occurs_at ''Gaza'' ''Gaza under fire'' p \<and>
      occurs_at ''Gaza'' ''Gaza under fire'' q \<and> p < q \<longrightarrow> p + length ''Gaza'' \<le> q"
    by force
  with t u(1) have "1 = card {p. occurs_at ''Gaza'' ''Gaza under fire'' p}" by blast
  then have d: "card {p. occurs_at ''Gaza'' ''Gaza under fire'' p} = 1" by simp
  from a b c d show ?thesis by (intro conjI) assumption+
qed


section \<open>A month limit of at most one\<close>

text \<open>
  Claim C10. The month limit is the current month minus \<open>max(number_of_months - 1, 0)\<close>, so
  it is at most 1 whenever \<open>number_of_months - 1\<close> is at least the current month. When the
  month limit is at most 1, the month of every parsed date is at least the limit, no
  element takes the \<open>break\<close> branch, the payload holds the records of all the elements from
  which a record is built, and a record is built from every element that has a parsed date
  (so its title, description and footer are found), an image element and an image download
  that does not raise, provided the search phrase is a string.
\<close>

theorem no_early_stop_when_limit_at_most_one:
  "(now_month \<le> number_of_months - 1 \<longrightarrow>
      month_limit (init now_month number_of_months phrase) \<le> 1) \<and>
   (month_limit self \<le> 1 \<longrightarrow>
      (\<forall>date. parsed_date el = Some date \<longrightarrow> month_limit self \<le> month date) \<and>
      fst (process_element self s i el w) \<noteq> Inr Break \<and>
      fst (process_news_payload self s news_list w) =
        List.map_filter (record_of self s) (enumerate 0 news_list) \<and>
      (\<forall>date p src name.
         parsed_date el = Some date \<and> search_phrase self = Some p \<and>
         image_src el = Some src \<and> fst (get_news_image s src i w) = Inr name \<longrightarrow>
         record_of self s (i, el) \<noteq> None))"
proof (intro conjI impI allI)
  assume "now_month \<le> number_of_months - 1"
  then show "month_limit (init now_month number_of_months phrase) \<le> 1"
    by (simp add: init_def)
next
  fix date assume "month_limit self \<le> 1" "parsed_date el = Some date"
  then show "month_limit self \<le> month date" using parsed_date_month[of el date] by simp
next
  assume "month_limit self \<le> 1"
  then show "fst (process_element self s i el w) \<noteq> Inr Break"
    using never_below_limit[of self "(i, el)"] by (simp add: break_iff)
next
  assume l: "month_limit self \<le> 1"
  have tw: "takeWhile (\<lambda>ie. \<not> below_limit self ie) (enumerate 0 news_list) = enumerate 0 news_list"
    using never_below_limit[OF l] by (simp add: takeWhile_eq_all_conv)
  show "fst (process_news_payload self s news_list w) =
        List.map_filter (record_of self s) (enumerate 0 news_list)"
    unfolding process_news_payload_def for_elements_payload tw by simp
next
  fix date p src name
  assume l: "month_limit self \<le> 1"
    and h: "parsed_date el = Some date \<and> search_phrase self = Some p \<and>
         image_src el = Some src \<and> fst (get_news_image s src i w) = Inr name"
  from l h have "month_limit self \<le> month date" using parsed_date_month[of el date] by simp
  with h record_of_well_formed[of el date self p src s i w name]
  show "record_of self s (i, el) \<noteq> None" by auto
qed

theorem no_early_stop_when_limit_at_most_one_witness:
  "(3::int) \<le> 5 - 1 \<and> month_limit (init 3 5 (Some ''Gaza'')) \<le> 1 \<and>
   month_limit (init 3 5 (Some ''Gaza'')) = - 1 \<and>
   parsed_date january_article = Some \<lparr>year = 2024, month = 1, day = 28\<rparr> \<and>
   fst (process_news_payload (init 3 5 (Some ''Gaza'')) (news_site [])
          [gaza_article, january_article, gaza_article] new_world) =
     List.map_filter (record_of (init 3 5 (Some ''Gaza'')) (news_site []))
       (enumerate 0 [gaza_article, january_article, gaza_article]) \<and>
   length (fst (process_news_payload (init 3 5 (Some ''Gaza'')) (news_site [])
          [gaza_article, january_article, gaza_article] new_world)) = 3"
proof -
  have a: "(3::int) \<le> 5 - 1" by simp
  from no_early_stop_when_limit_at_most_one[of 3 5 "Some ''Gaza''"] a
  have b: "month_limit (init 3 5 (Some ''Gaza'')) \<le> 1" by blast
  have b': "month_limit (init 3 5 (Some ''Gaza'')) = - 1" by code_simp
  have c: "parsed_date january_article = Some \<lparr>year = 2024, month = 1, day = 28\<rparr>" by code_simp
  from no_early_stop_when_limit_at_most_one[of _ _ _ "init 3 5 (Some ''Gaza'')"] b
  have d: "fst (process_news_payload (init 3 5 (Some ''Gaza'')) (news_site [])
          [gaza_article, january_article, gaza_article] new_world) =
     List.map_filter (record_of (init 3 5 (Some ''Gaza'')) (news_site []))
       (enumerate 0 [gaza_article, january_article, gaza_article])" by blast
  have e: "length (List.map_filter (record_of (init 3 5 (Some ''Gaza'')) (news_site []))
       (enumerate 0 [gaza_article, january_article, gaza_article])) = 3" by code_simp
  from a b b' c d e show ?thesis by simp
qed


section \<open>The image of an article\<close>

text \<open>
  Claim C3 says that \<open>get_news_image\<close> never raises, that it saves the image on every
  success of the 2xx class and that every failure, a timeout of the request included, is
  caught in it and yields "Unavailable" with the record still produced. The function has
  no handler: a request that times out raises out of it, the loop over the elements
  catches the exception and the article is dropped from the payload. And only the status
  200 saves the image: the status 201 yields "Unavailable".
\<close>

theorem get_news_image_timeout_counterexample:
  "requests_get (news_site []) ''https://img/slow.jpg'' = Raises TimeoutException \<and>
   fst (get_news_image (news_site []) (Some ''https://img/slow.jpg'') 0 new_world) =
     Inl TimeoutException \<and>
   fst (process_news_payload gaza_scrapper (news_site []) [slow_image_article] new_world) = [] \<and>
   requests_get (news_site []) ''https://img/created.jpg'' = Response 201 ''JPEG'' \<and>
   fst (get_news_image (news_site []) (Some ''https://img/created.jpg'') 0 new_world) =
     Inr ''Unavailable''"
  by code_simp

text \<open>
  Claim C3, amended. For a source URL, \<open>get_news_image\<close> raises what the request raises;
  on a response with status 200 it writes the content to the file \<open>img_<index>.png\<close> of the
  image directory and returns that name; on a response with any other status it writes no
  file, logs a warning with the status and the content, and returns "Unavailable". In the
  last case the record of the article is still built, with "Unavailable" as its image file
  name, when the article has a parsed date not below the limit and the search phrase is a
  string. When the request raises, no record is built from the article.
\<close>

theorem get_news_image_outcomes:
  "fst (get_news_image s (Some url) idx w) =
     (case requests_get s url of
        Raises e \<Rightarrow> Inl e
      | Response status_code content \<Rightarrow>
          if status_code = 200 then Inr (''img_'' @ decimal idx @ ''.png'')
          else Inr ''Unavailable'') \<and>
   files (snd (get_news_image s (Some url) idx w)) =
     (case requests_get s url of
        Raises e \<Rightarrow> files w
      | Response status_code content \<Rightarrow>
          if status_code = 200
          then (files w)(''output/imgs/'' @ ''img_'' @ decimal idx @ ''.png'' \<mapsto> content)
          else files w) \<and>
   (\<forall>status_code content. requests_get s url = Response status_code content \<and> status_code \<noteq> 200 \<longrightarrow>
      Warning_unable_to_fetch_image status_code content \<in>
        set (log (snd (get_news_image s (Some url) idx w)))) \<and>
   (\<forall>date phrase status_code content.
      parsed_date el = Some date \<and> month_limit self \<le> month date \<and>
      search_phrase self = Some phrase \<and> image_src el = Some (Some url) \<and>
      requests_get s url = Response status_code content \<and> status_code \<noteq> 200 \<longrightarrow>
      (\<exists>d. record_of self s (i, el) = Some d \<and>
           map_of d ''img_file_name'' = Some (Str ''Unavailable''))) \<and>
   (\<forall>e. image_src el' = Some (Some url') \<and> requests_get s url' = Raises e \<longrightarrow>
      fst (get_news_image s (Some url') idx w) = Inl e \<and> record_of self s (j, el') = None)"
proof (intro conjI allI impI)
  show "fst (get_news_image s (Some url) idx w) =
     (case requests_get s url of
        Raises e \<Rightarrow> Inl e
      | Response status_code content \<Rightarrow>
          if status_code = 200 then Inr (''img_'' @ decimal idx @ ''.png'')
          else Inr ''Unavailable'')"
    by (cases "requests_get s url") (simp_all add: get_news_image_def Let_def)
next
  show "files (snd (get_news_image s (Some url) idx w)) =
     (case requests_get s url of
        Raises e \<Rightarrow> files w
      | Response status_code content \<Rightarrow>
          if status_code = 200
          then (files w)(''output/imgs/'' @ ''img_'' @ decimal idx @ ''.png'' \<mapsto> content)
          else files w)"
    by (cases "requests_get s url") (simp_all add: get_news_image_def Let_def logging_def)
next
  fix status_code content
  assume "requests_get s url = Response status_code content \<and> status_code \<noteq> 200"
  then show "Warning_unable_to_fetch_image status_code content \<in>
        set (log (snd (get_news_image s (Some url) idx w)))"
    by (simp add: get_news_image_def Let_def logging_def)
next
  fix date phrase status_code content
  assume h: "parsed_date el = Some date \<and> month_limit self \<le> month date \<and>
      search_phrase self = Some phrase \<and> image_src el = Some (Some url) \<and>
      requests_get s url = Response status_code content \<and> status_code \<noteq> 200"
  then have "fst (get_news_image s (Some url) i w) = Inr ''Unavailable''"
    by (simp add: get_news_image_def Let_def)
  with h record_of_well_formed[of el date self phrase "Some url" s i w "''Unavailable''"]
  show "\<exists>d. record_of self s (i, el) = Some d \<and>
           map_of d ''img_file_name'' = Some (Str ''Unavailable'')" by blast
next
  fix e assume "image_src el' = Some (Some url') \<and> requests_get s url' = Raises e"
  then show "fst (get_news_image s (Some url') idx w) = Inl e"
    by (simp add: get_news_image_def Let_def)
next
  fix e assume "image_src el' = Some (Some url') \<and> requests_get s url' = Raises e"
  then show "record_of self s (j, el') = None"
    using record_of_request_raises[of el' url' s e self j] by blast
qed

theorem get_news_image_outcomes_witness:
  "parsed_date january_article = Some \<lparr>year = 2024, month = 1, day = 28\<rparr> \<and>
   month_limit (init 3 5 (Some ''Gaza'')) \<le> 1 \<and>
   search_phrase (init 3 5 (Some ''Gaza'')) = Some ''Gaza'' \<and>
   image_src january_article = Some (Some ''https://img/gone.jpg'') \<and>
   requests_get (news_site []) ''https://img/gone.jpg'' = Response 404 ''Not Found'' \<and>
   (404::int) \<noteq> 200 \<and>
   Warning_unable_to_fetch_image 404 ''Not Found'' \<in>
     set (log (snd (get_news_image (news_site []) (Some ''https://img/gone.jpg'') 7 new_world))) \<and>
   (\<exists>d. record_of (init 3 5 (Some ''Gaza'')) (news_site []) (7, january_article) = Some d \<and>
        map_of d ''img_file_name'' = Some (Str ''Unavailable'')) \<and>
   image_src slow_image_article = Some (Some ''https://img/slow.jpg'') \<and>
   requests_get (news_site []) ''https://img/slow.jpg'' = Raises TimeoutException \<and>
   fst (get_news_image (news_site []) (Some ''https://img/slow.jpg'') 7 new_world) =
     Inl TimeoutException \<and>
   record_of (init 3 5 (Some ''Gaza'')) (news_site []) (2, slow_image_article) = None"
proof -
  note t = get_news_image_outcomes[of "news_site []" "''https://img/gone.jpg''" 7 new_world
      january_article "init 3 5 (Some ''Gaza'')" 7 slow_image_article "''https://img/slow.jpg''" 2]
  have a: "parsed_date january_article = Some \<lparr>year = 2024, month = 1, day = 28\<rparr>" by code_simp
  have b: "month_limit (init 3 5 (Some ''Gaza'')) \<le> 1" by code_simp
  have b': "month_limit (init 3 5 (Some ''Gaza'')) \<le> month \<lparr>year = 2024, month = 1, day = 28\<rparr>"
    by code_simp
  have c: "search_phrase (init 3 5 (Some ''Gaza'')) = Some ''Gaza''" by code_simp
  have d: "image_src january_article = Some (Some ''https://img/gone.jpg'')" by code_simp
  have e: "requests_get (news_site []) ''https://img/gone.jpg'' = Response 404 ''Not Found''"
    by code_simp
  have f: "(404::int) \<noteq> 200" by simp
  have g: "image_src slow_image_article = Some (Some ''https://img/slow.jpg'')" by code_simp
  have h: "requests_get (news_site []) ''https://img/slow.jpg'' = Raises TimeoutException"
    by code_simp
  from t e f have 1: "Warning_unable_to_fetch_image 404 ''Not Found'' \<in>
     set (log (snd (get_news_image (news_site []) (Some ''https://img/gone.jpg'') 7 new_world)))"
    by blast
  from t a b' c d e f
  have 2: "\<exists>d. record_of (init 3 5 (Some ''Gaza'')) (news_site []) (7, january_article) = Some d \<and>
        map_of d ''img_file_name'' = Some (Str ''Unavailable'')" by blast
  from t g h have 3: "fst (get_news_image (news_site []) (Some ''https://img/slow.jpg'') 7 new_world) =
     Inl TimeoutException \<and>
     record_of (init 3 5 (Some ''Gaza'')) (news_site []) (2, slow_image_article) = None" by blast
  from a b c d e f g h 1 2 3 show ?thesis by blast
qed

section \<open>The report\<close>

lemma set_cell_value_eq:
  "set_cell_value r c v sh =
     (if legal v then Inr (sh((r, c) \<mapsto> stored v)) else Inl IllegalCharacterError)"
  by (cases v) (auto simp: set_cell_value_def check_string_def legal_def stored_def)

lemma for_keys_eq:
  "for_keys col keys sh =
     (if \<forall>key \<in> set keys. legal (Str key) then Inr (written_keys col keys sh)
      else Inl IllegalCharacterError)"
  by (induction keys arbitrary: col sh) (simp_all add: set_cell_value_eq)

lemma for_items_eq:
  "for_items row col items sh =
     (if \<forall>kv \<in> set items. legal (snd kv) then Inr (written_items row col items sh)
      else Inl IllegalCharacterError)"
proof (induction items arbitrary: col sh)
  case Nil
  show ?case by simp
next
  case (Cons kv items)
  obtain k v where kv: "kv = (k, v)" by (cases kv)
  show ?case by (simp add: kv set_cell_value_eq Cons)
qed

lemma for_rows_eq:
  "for_rows row payload sh =
     (if \<forall>d \<in> set payload. \<forall>kv \<in> set d. legal (snd kv) then Inr (written_rows row payload sh)
      else Inl IllegalCharacterError)"
  by (induction payload arbitrary: row sh) (auto simp: for_items_eq)




lemma save_payload_to_excel_writable:
  assumes "payload \<noteq> []" and "writable payload w"
  shows "save_payload_to_excel payload w =
     (Inr (), w\<lparr>workbook_file := Some (written_rows 2 payload
        (written_keys 1 (map fst (hd payload))
           (case workbook_file w of None \<Rightarrow> Map.empty | Some old \<Rightarrow> old)))\<rparr>)"
proof -
  from assms(1) obtain d ds where p: "payload = d # ds" by (cases payload) auto
  from assms(2) have "output_directory_exists w" "\<forall>key \<in> set (map fst d). legal (Str key)"
    "\<forall>d \<in> set payload. \<forall>kv \<in> set d. legal (snd kv)"
    by (simp_all add: writable_def p)
  then show ?thesis
    by (simp add: save_payload_to_excel_def index_def p for_keys_eq for_rows_eq)
qed







section \<open>The run\<close>

lemma while_load_more_returns:
  "page (k + n) \<noteq> Clickable \<Longrightarrow> while_load_more page k \<noteq> None"
proof (induction n arbitrary: k)
  case 0
  then show ?case by (subst while_load_more.simps) (simp split: button.splits)
next
  case (Suc n)
  show ?case
  proof (cases "page k")
    case Clickable
    from Suc.prems have "page (Suc k + n) \<noteq> Clickable" by simp
    from Suc.IH[OF this] Clickable show ?thesis by (subst while_load_more.simps) simp
  qed (subst while_load_more.simps, simp)+
qed

lemma while_load_more_stops:
  assumes "while_load_more page k = Some r"
  shows "\<exists>j \<ge> k. page j \<noteq> Clickable"
proof (rule while_load_more.raw_induct[where P = "\<lambda>page k r. \<exists>j \<ge> k. page j \<noteq> Clickable", OF _ assms])
  fix f :: "(nat \<Rightarrow> button) \<Rightarrow> nat \<Rightarrow> (exn + unit) option" and page k r
  assume IH: "\<And>p k y. f p k = Some y \<Longrightarrow> \<exists>j \<ge> k. p j \<noteq> Clickable"
    and st: "(case page k of Absent \<Rightarrow> Some (Inr ()) | Clickable \<Rightarrow> f page (Suc k)
              | Unclickable e \<Rightarrow> Some (Inl e)) = Some r"
  show "\<exists>j \<ge> k. page j \<noteq> Clickable"
  proof (cases "page k")
    case Clickable
    with st have "f page (Suc k) = Some r" by simp
    from IH[OF this] obtain j where "Suc k \<le> j" "page j \<noteq> Clickable" by blast
    then show ?thesis by (intro exI[of _ j]) simp
  qed auto
qed

lemma while_load_more_never_ends:
  "(\<forall>j. page j = Clickable) \<Longrightarrow> while_load_more page k = None"
  using while_load_more_stops[of page k] by (cases "while_load_more page k") auto

lemma get_news_list_by_date_returns:
  "load_more s k \<noteq> Clickable \<Longrightarrow> get_news_list_by_date s \<noteq> None"
  using while_load_more_returns[of "load_more s" 0 k]
  by (auto simp: get_news_list_by_date_def split: sum.splits option.splits)

lemma scrape_try_failure:
  "scrape_try self s w = Some (Inl e, w1) \<Longrightarrow> reraised self s w e"
  by (simp add: reraised_def scrape_def close_all_browsers_def logging_def)

lemma get_news_list_by_date_news_site: "get_news_list_by_date (news_site els) = Some (Inr els)"
proof -
  have "while_load_more (\<lambda>k. if k < 2 then Clickable else Absent) 0 = Some (Inr ())"
    by (simp add: while_load_more.simps[of _ 0] while_load_more.simps[of _ "Suc 0"]
        while_load_more.simps[of _ "Suc (Suc 0)"])
  then show ?thesis
    by (simp add: get_news_list_by_date_def news_site_def and_then_def act_def wait_until_def)
qed

lemma get_news_list_by_date_stuck_site:
  "get_news_list_by_date stuck_site = Some (Inl WebDriverException)"
proof -
  have "while_load_more (\<lambda>k. if k < 1 then Clickable else Unclickable WebDriverException) 0 =
      Some (Inl WebDriverException)"
    by (simp add: while_load_more.simps[of _ 0] while_load_more.simps[of _ "Suc 0"])
  then show ?thesis
    by (simp add: get_news_list_by_date_def stuck_site_def news_site_def and_then_def act_def
        wait_until_def)
qed

text \<open>
  Claim C9. When searching raises, when the wait for the sort control times out, when
  collecting the elements to extract raises, or when writing the report raises, \<open>scrape\<close>
  logs the error, closes the browser and raises the generic exception from the one
  caught. Whenever \<open>scrape\<close> returns or raises, the browser is closed, and the result is
  either a success or the generic exception with its cause logged. It succeeds only when
  every step succeeded. It does return or raise whenever the "load more" button is at some
  check not there or not clickable; the extraction step itself never raises.
\<close>

theorem scrape_closes_and_reraises:
  "(search_news s = Inl e \<longrightarrow> reraised self s w e) \<and>
   (search_news s = Inr () \<and> \<not> sort_option_present s \<longrightarrow> reraised self s w TimeoutException) \<and>
   (search_news s = Inr () \<and> sort_option_present s \<and> get_news_list_by_date s = Some (Inl e) \<longrightarrow>
      reraised self s w e) \<and>
   (search_news s = Inr () \<and> sort_option_present s \<and>
    get_news_list_by_date s = Some (Inr news_list) \<and>
    fst (save_payload_to_excel (fst (process_news_payload self s news_list w))
           (snd (process_news_payload self s news_list w))) = Inl e \<longrightarrow>
      reraised self s w e) \<and>
   (scrape self s w = Some (r, w') \<longrightarrow>
      \<not> browser_open w' \<and>
      (r = Inr () \<or> (\<exists>x. r = Inl (Exception x) \<and> Error_unexpected_error x \<in> set (log w')))) \<and>
   (scrape self s w = Some (Inr (), w') \<longrightarrow>
      search_news s = Inr () \<and> sort_option_present s \<and>
      (\<exists>news_list. get_news_list_by_date s = Some (Inr news_list) \<and>
         fst (save_payload_to_excel (fst (process_news_payload self s news_list w))
                (snd (process_news_payload self s news_list w))) = Inr ())) \<and>
   ((\<exists>k. load_more s k \<noteq> Clickable) \<longrightarrow> scrape self s w \<noteq> None)"
proof -
  have c1: "search_news s = Inl e \<longrightarrow> reraised self s w e"
  proof
    assume "search_news s = Inl e"
    then have "scrape_try self s w = Some (Inl e, w)" by (simp add: scrape_try_def and_then_def)
    then show "reraised self s w e" by (rule scrape_try_failure)
  qed
  have c2: "search_news s = Inr () \<and> \<not> sort_option_present s \<longrightarrow>
      reraised self s w TimeoutException"
  proof
    assume "search_news s = Inr () \<and> \<not> sort_option_present s"
    then have "scrape_try self s w = Some (Inl TimeoutException, w)"
      by (simp add: scrape_try_def and_then_def wait_until_def)
    then show "reraised self s w TimeoutException" by (rule scrape_try_failure)
  qed
  have c3: "search_news s = Inr () \<and> sort_option_present s \<and>
      get_news_list_by_date s = Some (Inl e) \<longrightarrow> reraised self s w e"
  proof
    assume "search_news s = Inr () \<and> sort_option_present s \<and>
      get_news_list_by_date s = Some (Inl e)"
    then have "scrape_try self s w = Some (Inl e, w)"
      by (simp add: scrape_try_def and_then_def wait_until_def)
    then show "reraised self s w e" by (rule scrape_try_failure)
  qed
  have c4: "search_news s = Inr () \<and> sort_option_present s \<and>
    get_news_list_by_date s = Some (Inr news_list) \<and>
    fst (save_payload_to_excel (fst (process_news_payload self s news_list w))
           (snd (process_news_payload self s news_list w))) = Inl e \<longrightarrow>
      reraised self s w e"
  proof
    assume a: "search_news s = Inr () \<and> sort_option_present s \<and>
      get_news_list_by_date s = Some (Inr news_list) \<and>
      fst (save_payload_to_excel (fst (process_news_payload self s news_list w))
           (snd (process_news_payload self s news_list w))) = Inl e"
    let ?r = "save_payload_to_excel (fst (process_news_payload self s news_list w))
           (snd (process_news_payload self s news_list w))"
    from a have "scrape_try self s w = Some ?r"
      by (simp add: scrape_try_def and_then_def wait_until_def split_beta)
    with a have "scrape_try self s w = Some (Inl e, snd ?r)" by (metis prod.collapse)
    then show "reraised self s w e" by (rule scrape_try_failure)
  qed
  have c5: "scrape self s w = Some (r, w') \<longrightarrow>
      \<not> browser_open w' \<and>
      (r = Inr () \<or> (\<exists>x. r = Inl (Exception x) \<and> Error_unexpected_error x \<in> set (log w')))"
    by (auto simp: scrape_def close_all_browsers_def logging_def
        split: sum.splits option.splits prod.splits)
  have c6: "scrape self s w = Some (Inr (), w') \<longrightarrow>
      search_news s = Inr () \<and> sort_option_present s \<and>
      (\<exists>news_list. get_news_list_by_date s = Some (Inr news_list) \<and>
         fst (save_payload_to_excel (fst (process_news_payload self s news_list w))
                (snd (process_news_payload self s news_list w))) = Inr ())"
    by (auto simp: scrape_def scrape_try_def and_then_def wait_until_def split_beta
        split: sum.splits option.splits if_splits)
  have c7: "(\<exists>k. load_more s k \<noteq> Clickable) \<longrightarrow> scrape self s w \<noteq> None"
  proof
    assume "\<exists>k. load_more s k \<noteq> Clickable"
    then obtain k where "load_more s k \<noteq> Clickable" by blast
    then have "get_news_list_by_date s \<noteq> None" by (rule get_news_list_by_date_returns)
    then have "scrape_try self s w \<noteq> None"
      by (auto simp: scrape_try_def split_beta split: sum.splits option.splits)
    then show "scrape self s w \<noteq> None"
      by (auto simp: scrape_def split: sum.splits option.splits prod.splits)
  qed
  from c1 c2 c3 c4 c5 c6 c7 show ?thesis by (intro conjI) assumption+
qed

text \<open>
  Five runs: the search button is broken; the sort control never appears; the "load more"
  button cannot be clicked; no article is found, so that there is no first record to take
  the header from; and a run that succeeds.
\<close>

theorem scrape_closes_and_reraises_witness:
  "search_news broken_search_site = Inl WebDriverException \<and>
   reraised gaza_scrapper broken_search_site new_world WebDriverException \<and>
   (search_news unsorted_site = Inr () \<and> \<not> sort_option_present unsorted_site) \<and>
   reraised gaza_scrapper unsorted_site new_world TimeoutException \<and>
   (search_news stuck_site = Inr () \<and> sort_option_present stuck_site \<and>
    get_news_list_by_date stuck_site = Some (Inl WebDriverException)) \<and>
   reraised gaza_scrapper stuck_site new_world WebDriverException \<and>
   (search_news (news_site []) = Inr () \<and> sort_option_present (news_site []) \<and>
    get_news_list_by_date (news_site []) = Some (Inr []) \<and>
    fst (save_payload_to_excel (fst (process_news_payload gaza_scrapper (news_site []) [] new_world))
           (snd (process_news_payload gaza_scrapper (news_site []) [] new_world))) = Inl IndexError) \<and>
   reraised gaza_scrapper (news_site []) new_world IndexError \<and>
   load_more (news_site [gaza_article]) 2 \<noteq> Clickable \<and>
   (\<exists>w'. scrape gaza_scrapper (news_site [gaza_article]) new_world = Some (Inr (), w') \<and>
         \<not> browser_open w')"
proof -
  have a1: "search_news broken_search_site = Inl WebDriverException" by code_simp
  have a2: "search_news unsorted_site = Inr () \<and> \<not> sort_option_present unsorted_site"
    by code_simp
  have "search_news stuck_site = Inr () \<and> sort_option_present stuck_site" by code_simp
  then have a3: "search_news stuck_site = Inr () \<and> sort_option_present stuck_site \<and>
    get_news_list_by_date stuck_site = Some (Inl WebDriverException)"
    by (simp add: get_news_list_by_date_stuck_site)
  have "search_news (news_site []) = Inr () \<and> sort_option_present (news_site []) \<and>
    fst (save_payload_to_excel (fst (process_news_payload gaza_scrapper (news_site []) [] new_world))
           (snd (process_news_payload gaza_scrapper (news_site []) [] new_world))) = Inl IndexError"
    by code_simp
  then have a4: "search_news (news_site []) = Inr () \<and> sort_option_present (news_site []) \<and>
    get_news_list_by_date (news_site []) = Some (Inr []) \<and>
    fst (save_payload_to_excel (fst (process_news_payload gaza_scrapper (news_site []) [] new_world))
           (snd (process_news_payload gaza_scrapper (news_site []) [] new_world))) = Inl IndexError"
    by (simp add: get_news_list_by_date_news_site)
  have a5: "load_more (news_site [gaza_article]) 2 \<noteq> Clickable" by code_simp
  let ?p = "process_news_payload gaza_scrapper (news_site [gaza_article]) [gaza_article] new_world"
  let ?d = "[(''title'', Str ''Gaza under fire''), (''date'', Str ''05 Mar 2024''),
       (''description'', Str ''Situation in Gaza worsens, Gaza residents flee''),
       (''search_term_occurrence'', Num 3), (''contains_money'', Boolean False),
       (''img_file_name'', Str ''img_0.png'')]"
  have p: "fst ?p = [?d]" "output_directory_exists (snd ?p)" by code_simp+
  have "writable [?d] (snd ?p)"
    using p(2) by (simp add: writable_def legal_def illegal_character_def code_def)
  then have "fst (save_payload_to_excel [?d] (snd ?p)) = Inr ()"
    by (simp add: save_payload_to_excel_writable)
  then have sv: "fst (save_payload_to_excel (fst ?p) (snd ?p)) = Inr ()"
    unfolding p(1) .
  have "search_news (news_site [gaza_article]) = Inr () \<and>
      sort_option_present (news_site [gaza_article])" by code_simp
  with sv have g: "search_news (news_site [gaza_article]) = Inr () \<and>
      sort_option_present (news_site [gaza_article]) \<and>
      fst (save_payload_to_excel (fst ?p) (snd ?p)) = Inr ()" by blast
  then have "scrape_try gaza_scrapper (news_site [gaza_article]) new_world =
      Some (save_payload_to_excel (fst ?p) (snd ?p))"
    by (simp add: scrape_try_def and_then_def wait_until_def split_beta
        get_news_list_by_date_news_site)
  with g have a6: "map_option fst (scrape gaza_scrapper (news_site [gaza_article]) new_world) =
      Some (Inr ())"
    by (simp add: scrape_def split_beta split: sum.splits)
  from scrape_closes_and_reraises[of broken_search_site WebDriverException gaza_scrapper new_world] a1
  have b1: "reraised gaza_scrapper broken_search_site new_world WebDriverException" by blast
  from scrape_closes_and_reraises[of unsorted_site _ gaza_scrapper new_world] a2
  have b2: "reraised gaza_scrapper unsorted_site new_world TimeoutException" by blast
  from scrape_closes_and_reraises[of stuck_site WebDriverException gaza_scrapper new_world] a3
  have b3: "reraised gaza_scrapper stuck_site new_world WebDriverException" by blast
  from scrape_closes_and_reraises[of "news_site []" IndexError gaza_scrapper new_world "[]"] a4
  have b4: "reraised gaza_scrapper (news_site []) new_world IndexError" by blast
  from a6 obtain w' where s: "scrape gaza_scrapper (news_site [gaza_article]) new_world = Some (Inr (), w')"
    by auto
  from scrape_closes_and_reraises[of "news_site [gaza_article]" _ gaza_scrapper new_world _ "Inr ()" w'] s
  have "\<not> browser_open w'" by blast
  with s have b5: "\<exists>w'. scrape gaza_scrapper (news_site [gaza_article]) new_world = Some (Inr (), w') \<and>
         \<not> browser_open w'" by blast
  from a1 a2 a3 a4 a5 b1 b2 b3 b4 b5 show ?thesis by blast
qed


section \<open>Mentions of money\<close>

subsection \<open>What the matchers match\<close>

lemma conc_assoc: "conc (conc A B) C = conc A (conc B C)"
  unfolding conc_def by (auto, metis append_assoc, metis append_assoc)

lemma conc_unit: "conc A {[]} = A"
  by (auto simp: conc_def)

lemma recognises_eps: "recognises eps {[]}"
  by (auto simp: recognises_def eps_def)

lemma recognises_cls: "recognises (cls P) {[c] | c. P c}"
  by (auto simp: recognises_def cls_def split: list.splits if_splits)

lemma recognises_lit: "recognises (lit x) {[x]}"
  using recognises_cls[of "\<lambda>c. c = x"] by (simp add: lit_def)

lemma set_seq: "set (seq a m st) = (\<Union>st' \<in> set (a st). set (m st'))"
  by (simp add: seq_def)

lemma recognises_seq:
  assumes "recognises a A" and "recognises m M"
  shows "recognises (seq a m) (conc A M)"
  unfolding recognises_def
proof (intro allI set_eqI iffI)
  fix b r :: string and g :: "string option" and x :: mstate
  assume "x \<in> set (seq a m (b, r, g))"
  then obtain st' where 1: "st' \<in> set (a (b, r, g))" and 2: "x \<in> set (m st')"
    by (auto simp: set_seq)
  from 1 assms(1) obtain u v where st': "st' = (b @ u, v, g)" "r = u @ v" "u \<in> A"
    by (auto simp: recognises_def)
  from 2 st' assms(2) obtain u' v' where "x = ((b @ u) @ u', v', g)" "v = u' @ v'" "u' \<in> M"
    by (auto simp: recognises_def)
  with st' have "x = (b @ (u @ u'), v', g)" "r = (u @ u') @ v'" "u @ u' \<in> conc A M"
    by (auto simp: conc_def)
  then show "x \<in> {(b @ u, v, g) | u v. r = u @ v \<and> u \<in> conc A M}" by blast
next
  fix b r :: string and g :: "string option" and x :: mstate
  assume "x \<in> {(b @ u, v, g) | u v. r = u @ v \<and> u \<in> conc A M}"
  then obtain u u' v where x: "x = (b @ u @ u', v, g)" "r = (u @ u') @ v" "u \<in> A" "u' \<in> M"
    by (auto simp: conc_def)
  then have 1: "(b @ u, u' @ v, g) \<in> set (a (b, r, g))" using assms(1)
    by (auto simp: recognises_def)
  have "((b @ u) @ u', v, g) \<in> set (m (b @ u, u' @ v, g))" using assms(2) x(4)
    unfolding recognises_def by blast
  with 1 x(1) show "x \<in> set (seq a m (b, r, g))" by (auto simp: set_seq)
qed

lemma recognises_opt:
  assumes "recognises a A"
  shows "recognises (opt a) (insert [] A)"
  using assms by (auto simp: recognises_def opt_def)

lemma star_n_set:
  assumes "recognises a A"
  shows "set (star_n n a (b, r, g)) =
           {(b @ concat us, v, g) | us v. r = concat us @ v \<and> (\<forall>u \<in> set us. u \<in> A) \<and> length us \<le> n}"
proof (induction n arbitrary: b r)
  case 0
  show ?case by (auto simp: eps_def)
next
  case (Suc n)
  show ?case
  proof (intro set_eqI iffI)
    fix x :: mstate
    assume "x \<in> set (star_n (Suc n) a (b, r, g))"
    then consider "x = (b, r, g)" | st' where "st' \<in> set (a (b, r, g))" "x \<in> set (star_n n a st')"
      by auto
    then show "x \<in> {(b @ concat us, v, g) | us v.
        r = concat us @ v \<and> (\<forall>u \<in> set us. u \<in> A) \<and> length us \<le> Suc n}"
    proof cases
      case 1
      then have "x = (b @ concat [], r, g) \<and> r = concat [] @ r" by simp
      then show ?thesis by (intro CollectI exI[of _ "[]"] exI[of _ r]) simp
    next
      case 2
      from 2(1) assms obtain u v where st': "st' = (b @ u, v, g)" "r = u @ v" "u \<in> A"
        by (auto simp: recognises_def)
      from 2(2) obtain us v' where x: "x = ((b @ u) @ concat us, v', g)" "v = concat us @ v'"
        "\<forall>u \<in> set us. u \<in> A" "length us \<le> n"
        unfolding st' Suc by blast
      show ?thesis
        by (intro CollectI exI[of _ "u # us"] exI[of _ v']) (use st' x in simp)
    qed
  next
    fix x :: mstate
    assume "x \<in> {(b @ concat us, v, g) | us v.
        r = concat us @ v \<and> (\<forall>u \<in> set us. u \<in> A) \<and> length us \<le> Suc n}"
    then obtain us v where x: "x = (b @ concat us, v, g)" "r = concat us @ v"
      "\<forall>u \<in> set us. u \<in> A" "length us \<le> Suc n" by blast
    show "x \<in> set (star_n (Suc n) a (b, r, g))"
    proof (cases us)
      case Nil
      with x show ?thesis by simp
    next
      case (Cons u us')
      with x have 1: "(b @ u, concat us' @ v, g) \<in> set (a (b, r, g))"
        using assms by (auto simp: recognises_def)
      have "((b @ u) @ concat us', v, g) \<in> set (star_n n a (b @ u, concat us' @ v, g))"
        unfolding Suc using x Cons by auto
      with 1 x(1) Cons show ?thesis by auto
    qed
  qed
qed

lemma length_le_concat: "\<forall>u \<in> set us. u \<noteq> [] \<Longrightarrow> length us \<le> length (concat us)"
proof (induction us)
  case Nil
  show ?case by simp
next
  case (Cons u us)
  then have "1 \<le> length u" "length us \<le> length (concat us)"
    by (auto simp: Suc_le_eq)
  then show ?case by simp
qed

lemma recognises_star:
  assumes "recognises a A" and "[] \<notin> A"
  shows "recognises (star a) (many A)"
  unfolding recognises_def
proof (intro allI)
  fix b r :: string and g :: "string option"
  have bound: "length us \<le> length r" if "r = concat us @ v" "\<forall>u \<in> set us. u \<in> A" for us v
  proof -
    from that(2) assms(2) have "\<forall>u \<in> set us. u \<noteq> []" by auto
    from length_le_concat[OF this] that(1) show ?thesis by simp
  qed
  have "set (star a (b, r, g)) =
      {(b @ concat us, v, g) | us v. r = concat us @ v \<and> (\<forall>u \<in> set us. u \<in> A) \<and> length us \<le> length r}"
    by (simp add: star_def star_n_set[OF assms(1)])
  also have "\<dots> = {(b @ u, v, g) | u v. r = u @ v \<and> u \<in> many A}"
    using bound by (auto simp: many_def) blast
  finally show "set (star a (b, r, g)) = {(b @ u, v, g) | u v. r = u @ v \<and> u \<in> many A}" .
qed

lemma recognises_one_or_more:
  assumes "recognises a A" and "[] \<notin> A"
  shows "recognises (one_or_more a) (conc A (many A))"
  unfolding one_or_more_def using assms by (intro recognises_seq recognises_star)

lemma recognises_lits: "recognises (lits s) {s}"
proof (induction s)
  case Nil
  show ?case by (simp add: recognises_eps)
next
  case (Cons c cs)
  have "conc {[c]} {cs} = {c # cs}" by (auto simp: conc_def)
  with recognises_seq[OF recognises_lit[of c] Cons] show ?case by simp
qed

lemma conc_class: "conc {[c] | c. P c} B = {c # v | c v. P c \<and> v \<in> B}"
proof (intro set_eqI iffI)
  fix s assume "s \<in> conc {[c] | c. P c} B"
  then show "s \<in> {c # v | c v. P c \<and> v \<in> B}" by (auto simp: conc_def)
next
  fix s assume "s \<in> {c # v | c v. P c \<and> v \<in> B}"
  then obtain c v where "s = [c] @ v" "P c" "v \<in> B" by auto
  then show "s \<in> conc {[c] | c. P c} B" unfolding conc_def by blast
qed

lemma conc_char: "conc {[x]} B = {x # v | v. v \<in> B}"
  using conc_class[of "\<lambda>c. c = x" B] by simp

lemma recognises_digit: "recognises digit {[c] | c. is_digit c}"
  unfolding digit_def by (rule recognises_cls)

lemma many_singletons: "many {[c] | c. P c} = {s. \<forall>c \<in> set s. P c}"
proof (intro set_eqI iffI)
  fix s assume "s \<in> many {[c] | c. P c}"
  then obtain us where us: "s = concat us" "\<forall>u \<in> set us. \<exists>c. u = [c] \<and> P c"
    by (auto simp: many_def)
  then show "s \<in> {s. \<forall>c \<in> set s. P c}" by auto
next
  fix s assume "s \<in> {s. \<forall>c \<in> set s. P c}"
  then have "s = concat (map (\<lambda>c. [c]) s) \<and> (\<forall>u \<in> set (map (\<lambda>c. [c]) s). \<exists>c. u = [c] \<and> P c)"
    by (induction s) auto
  then show "s \<in> many {[c] | c. P c}" unfolding many_def by blast
qed

lemma plus_singletons:
  "conc {[c] | c. P c} (many {[c] | c. P c}) = {s. s \<noteq> [] \<and> (\<forall>c \<in> set s. P c)}"
proof (intro set_eqI iffI)
  fix s assume "s \<in> conc {[c] | c. P c} (many {[c] | c. P c})"
  then show "s \<in> {s. s \<noteq> [] \<and> (\<forall>c \<in> set s. P c)}"
    by (auto simp: conc_def many_singletons)
next
  fix s assume "s \<in> {s. s \<noteq> [] \<and> (\<forall>c \<in> set s. P c)}"
  then obtain c cs where "s = [c] @ cs" "P c" "\<forall>c \<in> set cs. P c" by (cases s) auto
  then show "s \<in> conc {[c] | c. P c} (many {[c] | c. P c})"
    unfolding conc_def many_singletons by blast
qed

lemma recognises_digits: "recognises (one_or_more digit) digit_strings"
proof -
  have "recognises (one_or_more digit) (conc {[c] | c. is_digit c} (many {[c] | c. is_digit c}))"
    by (rule recognises_one_or_more[OF recognises_digit]) simp
  then show ?thesis by (simp add: plus_singletons digit_strings_def)
qed

lemma recognises_spaces: "recognises (one_or_more (cls is_space)) space_strings"
proof -
  have "recognises (one_or_more (cls is_space)) (conc {[c] | c. is_space c} (many {[c] | c. is_space c}))"
    by (rule recognises_one_or_more[OF recognises_cls]) simp
  then show ?thesis by (simp add: plus_singletons space_strings_def)
qed

lemma recognises_thousands: "recognises thousands thousands_group"
proof -
  let ?D = "{[c] | c. is_digit c}"
  have th: "thousands = seq (lit (CHR '','')) (seq digit (seq digit (seq digit eps)))"
    by (simp add: thousands_def eval_nat_numeral)
  have main: "recognises thousands (conc {[CHR '','']} (conc ?D (conc ?D (conc ?D {[]}))))"
    unfolding th
    by (intro recognises_seq recognises_lit recognises_digit recognises_eps)
  have eq: "conc {[CHR '','']} (conc ?D (conc ?D (conc ?D {[]}))) = thousands_group"
    unfolding conc_class conc_char thousands_group_def by auto
  from main show ?thesis unfolding eq .
qed

lemma recognises_decimals:
  "recognises (opt (seq (lit (CHR ''.'')) (between 1 2 digit))) (insert [] decimals)"
proof -
  let ?D = "{[c] | c. is_digit c}"
  have "between 1 2 digit = seq (seq digit eps) (opt (seq digit eps))"
    by (simp add: between_def eval_nat_numeral)
  then have main: "recognises (opt (seq (lit (CHR ''.'')) (between 1 2 digit)))
          (insert [] (conc {[CHR ''.'']} (conc (conc ?D {[]}) (insert [] (conc ?D {[]})))))"
    by (simp only:)
       (intro recognises_opt recognises_seq recognises_lit recognises_digit recognises_eps)
  have eq: "conc {[CHR ''.'']} (conc (conc ?D {[]}) (insert [] (conc ?D {[]}))) = decimals"
    unfolding conc_unit conc_class conc_char decimals_def by auto
  from main show ?thesis unfolding eq .
qed

lemma thousands_not_empty: "[] \<notin> thousands_group"
  by (simp add: thousands_group_def)

lemma recognises_dollar_amount: "recognises (money_patterns ! 0) dollar_amount"
proof -
  have "money_patterns ! 0 =
      seq (lit (CHR ''$'')) (seq (one_or_more digit) (seq (star thousands)
        (seq (opt (seq (lit (CHR ''.'')) (between 1 2 digit))) eps)))"
    by (simp add: money_patterns_def)
  then have main: "recognises (money_patterns ! 0)
          (conc {[CHR ''$'']} (conc digit_strings (conc (many thousands_group)
             (conc (insert [] decimals) {[]}))))"
    by (simp only:)
       (intro recognises_seq recognises_lit recognises_digits recognises_star
          recognises_thousands thousands_not_empty recognises_decimals recognises_eps)
  have eq: "conc {[CHR ''$'']} (conc digit_strings (conc (many thousands_group)
             (conc (insert [] decimals) {[]}))) = dollar_amount"
    by (simp only: dollar_amount_def separated_integer_def conc_assoc conc_unit)
  from main show ?thesis unfolding eq .
qed

lemma recognises_worded:
  "recognises (seqs [one_or_more digit, star thousands, one_or_more (cls is_space), lits unit])
     (conc separated_integer (conc space_strings {unit}))"
proof -
  have "seqs [one_or_more digit, star thousands, one_or_more (cls is_space), lits unit] =
      seq (one_or_more digit) (seq (star thousands) (seq (one_or_more (cls is_space)) (seq (lits unit) eps)))"
    by simp
  then have main: "recognises (seqs [one_or_more digit, star thousands, one_or_more (cls is_space), lits unit])
     (conc digit_strings (conc (many thousands_group) (conc space_strings (conc {unit} {[]}))))"
    by (simp only:)
       (intro recognises_seq recognises_digits recognises_star recognises_thousands
          thousands_not_empty recognises_spaces recognises_lits recognises_eps)
  have eq: "conc digit_strings (conc (many thousands_group) (conc space_strings (conc {unit} {[]}))) =
      conc separated_integer (conc space_strings {unit})"
    by (simp only: separated_integer_def conc_assoc conc_unit)
  from main show ?thesis unfolding eq .
qed

lemma concat_map_concat:
  "concat (map f (concat xss)) = concat (map (\<lambda>xs. concat (map f xs)) xss)"
  by (induction xss) auto

lemma seq_assoc: "seq (seq a b) c = seq a (seq b c)"
  by (rule ext) (simp add: seq_def concat_map_concat comp_def)

lemma seqs_append: "seqs (ms @ ns) = seq (seqs ms) (seqs ns)"
proof (induction ms)
  case Nil
  show ?case by (rule ext) (simp add: seq_def eps_def)
next
  case (Cons m ms)
  then show ?case by (simp add: seq_assoc)
qed

lemma seq_eps: "seq m eps = m"
  by (rule ext) (simp add: seq_def eps_def)

lemma bounded_pattern:
  "seqs [word_boundary, one_or_more digit, star thousands, one_or_more (cls is_space), lits unit, word_boundary] =
   seq word_boundary
     (seq (seqs [one_or_more digit, star thousands, one_or_more (cls is_space), lits unit]) word_boundary)"
proof -
  have "seqs ([one_or_more digit, star thousands, one_or_more (cls is_space), lits unit] @ [word_boundary]) =
        seq (seqs [one_or_more digit, star thousands, one_or_more (cls is_space), lits unit]) (seqs [word_boundary])"
    by (rule seqs_append)
  then show ?thesis by (simp add: seq_eps)
qed

lemma search_from_iff:
  "search_from m b r \<noteq> None \<longleftrightarrow> (\<exists>u v. r = u @ v \<and> m (b @ u, v, None) \<noteq> [])"
proof (induction r arbitrary: b)
  case Nil
  show ?case by (subst search_from.simps) (simp split: list.splits)
next
  case (Cons c cs)
  have "search_from m b (c # cs) \<noteq> None \<longleftrightarrow>
        m (b, c # cs, None) \<noteq> [] \<or> search_from m (b @ [c]) cs \<noteq> None"
    by (subst search_from.simps) (simp split: list.splits)
  also have "\<dots> \<longleftrightarrow> m (b, c # cs, None) \<noteq> [] \<or>
        (\<exists>u v. cs = u @ v \<and> m (b @ c # u, v, None) \<noteq> [])"
    using Cons[of "b @ [c]"] by auto
  also have "\<dots> \<longleftrightarrow> (\<exists>u v. c # cs = u @ v \<and> m (b @ u, v, None) \<noteq> [])"
  proof
    assume "m (b, c # cs, None) \<noteq> [] \<or> (\<exists>u v. cs = u @ v \<and> m (b @ c # u, v, None) \<noteq> [])"
    then show "\<exists>u v. c # cs = u @ v \<and> m (b @ u, v, None) \<noteq> []"
    proof
      assume "m (b, c # cs, None) \<noteq> []"
      then have "c # cs = [] @ (c # cs) \<and> m (b @ [], c # cs, None) \<noteq> []" by simp
      then show ?thesis by blast
    next
      assume "\<exists>u v. cs = u @ v \<and> m (b @ c # u, v, None) \<noteq> []"
      then obtain u v where "cs = u @ v" "m (b @ c # u, v, None) \<noteq> []" by blast
      then have "c # cs = (c # u) @ v \<and> m (b @ (c # u), v, None) \<noteq> []" by simp
      then show ?thesis by blast
    qed
  next
    assume "\<exists>u v. c # cs = u @ v \<and> m (b @ u, v, None) \<noteq> []"
    then obtain u v where uv: "c # cs = u @ v" "m (b @ u, v, None) \<noteq> []" by blast
    show "m (b, c # cs, None) \<noteq> [] \<or> (\<exists>u v. cs = u @ v \<and> m (b @ c # u, v, None) \<noteq> [])"
    proof (cases u)
      case Nil
      with uv show ?thesis by simp
    next
      case (Cons x u')
      with uv have "cs = u' @ v" "m (b @ c # u', v, None) \<noteq> []" by auto
      then show ?thesis by blast
    qed
  qed
  finally show ?case .
qed

lemma re_search_iff:
  "re_search m text \<noteq> None \<longleftrightarrow> (\<exists>pre rest. text = pre @ rest \<and> m (pre, rest, None) \<noteq> [])"
  using search_from_iff[of m "[]" "text"] by (simp add: re_search_def)

lemma recognises_nonempty:
  assumes "recognises m L"
  shows "m (b, r, g) \<noteq> [] \<longleftrightarrow> (\<exists>u v. r = u @ v \<and> u \<in> L)"
proof -
  have "m (b, r, g) \<noteq> [] \<longleftrightarrow> set (m (b, r, g)) \<noteq> {}" by simp
  also have "\<dots> \<longleftrightarrow> (\<exists>u v. r = u @ v \<and> u \<in> L)"
    using assms unfolding recognises_def by auto
  finally show ?thesis .
qed

lemma search_dollar_amount: "re_search (money_patterns ! 0) text \<noteq> None \<longleftrightarrow> contains_amount text"
  unfolding re_search_iff recognises_nonempty[OF recognises_dollar_amount] contains_amount_def
  by auto

lemma bounded_nonempty:
  assumes "recognises m L"
  shows "seq word_boundary (seq m word_boundary) (b, r, g) \<noteq> [] \<longleftrightarrow>
         at_boundary b r \<and> (\<exists>u v. r = u @ v \<and> u \<in> L \<and> at_boundary (b @ u) v)"
proof -
  have 1: "set (seq m word_boundary (b, r, g)) =
        {(b @ u, v, g) | u v. r = u @ v \<and> u \<in> L \<and> at_boundary (b @ u) v}"
    using assms unfolding set_seq recognises_def by (auto simp: word_boundary_def)
  have "set (seq word_boundary (seq m word_boundary) (b, r, g)) =
        (if at_boundary b r then set (seq m word_boundary (b, r, g)) else {})"
    by (simp add: set_seq word_boundary_def)
  then have "set (seq word_boundary (seq m word_boundary) (b, r, g)) \<noteq> {} \<longleftrightarrow>
        at_boundary b r \<and> (\<exists>u v. r = u @ v \<and> u \<in> L \<and> at_boundary (b @ u) v)"
    unfolding 1 by auto
  then show ?thesis by simp
qed

lemma digit_is_word: "is_digit c \<Longrightarrow> is_word c"
  by (simp add: is_digit_def is_word_def Let_def)

lemma separated_integer_starts:
  assumes "n \<in> separated_integer"
  shows "n \<noteq> [] \<and> is_word (hd n)"
proof -
  from assms obtain ds rest where "n = ds @ rest" "ds \<noteq> []" "\<forall>c \<in> set ds. is_digit c"
    by (auto simp: separated_integer_def conc_def digit_strings_def)
  then show ?thesis by (cases ds) (auto intro: digit_is_word)
qed

lemma at_boundary_before:
  "r \<noteq> [] \<Longrightarrow> is_word (hd r) \<Longrightarrow> at_boundary b r \<longleftrightarrow> (b = [] \<or> \<not> is_word (last b))"
  by (auto simp: at_boundary_def)

lemma at_boundary_after:
  "b \<noteq> [] \<Longrightarrow> is_word (last b) \<Longrightarrow> at_boundary b r \<longleftrightarrow> (r = [] \<or> \<not> is_word (hd r))"
  by (auto simp: at_boundary_def)

lemma search_worded:
  assumes "unit \<noteq> []" and "is_word (last unit)"
  shows "re_search (seqs [word_boundary, one_or_more digit, star thousands, one_or_more (cls is_space),
                           lits unit, word_boundary]) text \<noteq> None \<longleftrightarrow>
         worded_amount unit text"
proof
  assume "re_search (seqs [word_boundary, one_or_more digit, star thousands, one_or_more (cls is_space),
                           lits unit, word_boundary]) text \<noteq> None"
  then obtain pre u v where t: "text = pre @ u @ v"
    and u: "u \<in> conc separated_integer (conc space_strings {unit})"
    and b1: "at_boundary pre (u @ v)" and b2: "at_boundary (pre @ u) v"
    unfolding re_search_iff bounded_pattern bounded_nonempty[OF recognises_worded] by blast
  from u obtain n ws where n: "u = n @ ws @ unit" "n \<in> separated_integer" "ws \<in> space_strings"
    by (auto simp: conc_def)
  from separated_integer_starts[OF n(2)] have "u @ v \<noteq> []" "is_word (hd (u @ v))"
    using n(1) by auto
  with b1 have 1: "pre = [] \<or> \<not> is_word (last pre)" by (simp add: at_boundary_before)
  from assms n(1) have "pre @ u \<noteq> []" "is_word (last (pre @ u))" by auto
  with b2 have 2: "v = [] \<or> \<not> is_word (hd v)" by (simp add: at_boundary_after)
  from t n 1 2 have "text = pre @ n @ ws @ unit @ v \<and> n \<in> separated_integer \<and>
      ws \<in> space_strings \<and> (pre = [] \<or> \<not> is_word (last pre)) \<and> (v = [] \<or> \<not> is_word (hd v))"
    by simp
  then show "worded_amount unit text" unfolding worded_amount_def by blast
next
  assume "worded_amount unit text"
  then obtain pre n ws post where t: "text = pre @ n @ ws @ unit @ post"
    and n: "n \<in> separated_integer" and ws: "ws \<in> space_strings"
    and 1: "pre = [] \<or> \<not> is_word (last pre)" and 2: "post = [] \<or> \<not> is_word (hd post)"
    unfolding worded_amount_def by blast
  let ?u = "n @ ws @ unit"
  from n ws have u: "?u \<in> conc separated_integer (conc space_strings {unit})"
    unfolding conc_def by blast
  from separated_integer_starts[OF n] have "?u @ post \<noteq> []" "is_word (hd (?u @ post))" by auto
  with 1 have b1: "at_boundary pre (?u @ post)" by (simp add: at_boundary_before)
  from assms have "pre @ ?u \<noteq> []" "is_word (last (pre @ ?u))" by auto
  with 2 have b2: "at_boundary (pre @ ?u) post" by (simp add: at_boundary_after)
  from u b2 have "\<exists>u v. ?u @ post = u @ v \<and>
      u \<in> conc separated_integer (conc space_strings {unit}) \<and> at_boundary (pre @ u) v"
    by (intro exI[of _ ?u] exI[of _ post]) simp
  with t b1 have "text = pre @ (?u @ post) \<and>
      at_boundary pre (?u @ post) \<and>
      (\<exists>u v. ?u @ post = u @ v \<and> u \<in> conc separated_integer (conc space_strings {unit}) \<and>
         at_boundary (pre @ u) v)" by simp
  then show "re_search (seqs [word_boundary, one_or_more digit, star thousands, one_or_more (cls is_space),
                           lits unit, word_boundary]) text \<noteq> None"
    unfolding re_search_iff bounded_pattern bounded_nonempty[OF recognises_worded] by blast
qed

subsection \<open>\<open>contains_money\<close>\<close>

text \<open>
  Claim C5 says that \<open>contains_money\<close> is true exactly for the texts with a dollar-sign
  amount, an integer followed by the literal word "dollars", or an integer followed by the
  literal "USD". The second and the third pattern ask for more than that: whitespace
  between the integer and the literal, and a word boundary before the integer and after the
  literal. So "5USD", where nothing separates the integer from the literal, and "5 USDT",
  where the literal is continued by a letter, both hold an integer followed by the literal
  "USD", and \<open>contains_money\<close> is false for both.
\<close>

theorem contains_money_claim_counterexample:
  "followed_by ''USD'' ''5USD'' \<and> \<not> contains_money ''5USD'' \<and>
   followed_by ''USD'' ''5 USDT'' \<and> \<not> contains_money ''5 USDT''"
proof -
  have five: "''5'' \<in> separated_integer"
  proof -
    have "''5'' \<in> digit_strings" by (simp add: digit_strings_def is_digit_def code_def)
    moreover have "[] \<in> many thousands_group"
      unfolding many_def by (intro CollectI exI[of _ "[]"]) simp
    ultimately have "''5'' @ [] \<in> conc digit_strings (many thousands_group)"
      unfolding conc_def by blast
    then show ?thesis by (simp add: separated_integer_def)
  qed
  have a: "followed_by ''USD'' ''5USD''"
    unfolding followed_by_def
    by (intro exI[of _ "[]"] exI[of _ "''5''"]) (simp add: five)
  have sp: "is_space (CHR '' '')" by (simp add: is_space_def code_def Let_def)
  have b: "followed_by ''USD'' ''5 USDT''"
    unfolding followed_by_def
    by (intro exI[of _ "[]"] exI[of _ "''5''"] exI[of _ "'' ''"] exI[of _ "''T''"])
       (simp add: five sp)
  have c: "\<not> contains_money ''5USD''" by code_simp
  have d: "\<not> contains_money ''5 USDT''" by code_simp
  from a b c d show ?thesis by blast
qed

text \<open>
  Claim C5, amended. \<open>contains_money\<close> is true if and only if the text contains a
  dollar-sign amount (a dollar sign, an integer with optional thousands separators and
  optionally a decimal point with one or two decimal places), or an integer with optional
  thousands separators that does not continue a word and is followed by one or more
  whitespace characters and the word "dollars", or such an integer followed by one or more
  whitespace characters and the word "USD"; the two words end where they stand, no word
  character following them, and are matched with their case. The order in which the three
  patterns are tried does not change the result.
\<close>

theorem contains_money_iff:
  "contains_money text \<longleftrightarrow>
     contains_amount text \<or> worded_amount ''dollars'' text \<or> worded_amount ''USD'' text"
proof -
  have w: "is_word (CHR ''s'')" "is_word (CHR ''D'')" by (simp_all add: is_word_def code_def Let_def)
  have p: "money_patterns = [money_patterns ! 0,
      seqs [word_boundary, one_or_more digit, star thousands, one_or_more (cls is_space), lits ''dollars'',
            word_boundary],
      seqs [word_boundary, one_or_more digit, star thousands, one_or_more (cls is_space), lits ''USD'',
            word_boundary]]"
    by (simp add: money_patterns_def)
  have main: "contains_money text \<longleftrightarrow>
      re_search (money_patterns ! 0) text \<noteq> None \<or>
      re_search (seqs [word_boundary, one_or_more digit, star thousands, one_or_more (cls is_space),
                       lits ''dollars'', word_boundary]) text \<noteq> None \<or>
      re_search (seqs [word_boundary, one_or_more digit, star thousands, one_or_more (cls is_space),
                       lits ''USD'', word_boundary]) text \<noteq> None"
    unfolding contains_money_def by (subst p) (simp del: seqs.simps lits.simps not_None_eq)
  have d: "re_search (seqs [word_boundary, one_or_more digit, star thousands, one_or_more (cls is_space),
                       lits ''dollars'', word_boundary]) text \<noteq> None \<longleftrightarrow>
      worded_amount ''dollars'' text"
    by (rule search_worded) (simp_all add: w)
  have u: "re_search (seqs [word_boundary, one_or_more digit, star thousands, one_or_more (cls is_space),
                       lits ''USD'', word_boundary]) text \<noteq> None \<longleftrightarrow>
      worded_amount ''USD'' text"
    by (rule search_worded) (simp_all add: w)
  show ?thesis unfolding main d u search_dollar_amount by (rule refl)
qed

theorem contains_money_iff_witness:
  "contains_money ''Report covers 1,000 dollars in losses'' \<and>
   (contains_amount ''Report covers 1,000 dollars in losses'' \<or>
    worded_amount ''dollars'' ''Report covers 1,000 dollars in losses'' \<or>
    worded_amount ''USD'' ''Report covers 1,000 dollars in losses'') \<and>
   \<not> contains_money ''No monetary figures here'' \<and>
   \<not> (contains_amount ''No monetary figures here'' \<or>
      worded_amount ''dollars'' ''No monetary figures here'' \<or>
      worded_amount ''USD'' ''No monetary figures here'')"
proof -
  have a: "contains_money ''Report covers 1,000 dollars in losses''" by code_simp
  have b: "\<not> contains_money ''No monetary figures here''" by code_simp
  from a contains_money_iff[of "''Report covers 1,000 dollars in losses''"]
  have c: "contains_amount ''Report covers 1,000 dollars in losses'' \<or>
    worded_amount ''dollars'' ''Report covers 1,000 dollars in losses'' \<or>
    worded_amount ''USD'' ''Report covers 1,000 dollars in losses''" by blast
  from b contains_money_iff[of "''No monetary figures here''"]
  have d: "\<not> (contains_amount ''No monetary figures here'' \<or>
      worded_amount ''dollars'' ''No monetary figures here'' \<or>
      worded_amount ''USD'' ''No monetary figures here'')" by blast
  from a b c d show ?thesis by blast
qed

end
